theory Spec2Isabelle
  imports Main "HOL-Library.Product_Lexorder" "HOL-Library.Multiset"
begin

section \<open>Data model (src/types.ts)\<close>

datatype precedence = Primary | Secondary

text \<open>
  The Contact interface. Ids are the values of the SERIAL column. The three timestamps
  are the stored values of the TIMESTAMP WITH TIME ZONE columns, in microseconds; what
  JavaScript sees of them is \<open>getTime\<close> below. The field \<^verbatim>\<open>id\<close> is called \<open>id_c\<close>
  here.
\<close>

record contact =
  id_c :: int
  phoneNumber :: "string option"
  email :: "string option"
  linkedId :: "int option"
  linkPrecedence :: precedence
  createdAt :: int
  updatedAt :: int
  deletedAt :: "int option"

text \<open>IdentifyRequest: both fields are optional (\<open>None\<close> is \<^verbatim>\<open>undefined\<close>).\<close>

record identifyRequest =
  email_r :: "string option"
  phoneNumber_r :: "string option"

record consolidatedContact =
  primaryContatctId :: int
  emails :: "string list"
  phoneNumbers :: "string list"
  secondaryContactIds :: "int list"

text \<open>
  The database: the rows of the contacts table, the next value of the id sequence, and
  the clock that NOW() reads, in microseconds. The list enumerates the rows, a new row
  at the end and a rewritten row where it was. It is not the order in which a query
  returns rows: that is what ORDER BY says and, among rows that ORDER BY leaves tied,
  the choice of the database.
\<close>

record database =
  rows :: "contact list"
  next_id :: int
  clock :: int

text \<open>
  What an invocation can raise: the database rejects the query without any condition
  (QueryError) and a statement with a value that it cannot take (DataError: a text with
  a NUL character, a value too long for its column); a property read on \<^verbatim>\<open>undefined\<close>
  is a TypeError; and the last line of identify throws its own error.
\<close>

datatype error = QueryError | DataError | TypeError | UnexpectedState

section \<open>JavaScript helpers\<close>

text \<open>Truthiness of a string value: neither null/undefined nor the empty string.\<close>

definition truthy :: "string option \<Rightarrow> bool" where
  "truthy v = (case v of None \<Rightarrow> False | Some s \<Rightarrow> s \<noteq> [])"

text \<open>Truthiness of a number value: neither null nor 0.\<close>

definition truthy_num :: "int option \<Rightarrow> bool" where
  "truthy_num v = (case v of None \<Rightarrow> False | Some n \<Rightarrow> n \<noteq> 0)"

text \<open>\<^verbatim>\<open>v || null\<close>\<close>

definition or_null :: "string option \<Rightarrow> string option" where
  "or_null v = (if truthy v then v else None)"

text \<open>
  \<^verbatim>\<open>Date.getTime()\<close> of the Date the driver makes of a stored timestamp: whole
  milliseconds, the microseconds cut off.
\<close>

definition getTime :: "int \<Rightarrow> int" where
  "getTime t = t div 1000"

text \<open>
  \<^verbatim>\<open>Array.prototype.sort\<close> with a comparator: a stable sort, here by insertion. An
  element moves in front of the first element it does not compare greater than.
\<close>

primrec insort_cmp :: "('a \<Rightarrow> 'a \<Rightarrow> int) \<Rightarrow> 'a \<Rightarrow> 'a list \<Rightarrow> 'a list" where
  "insort_cmp cmp x [] = [x]"
| "insort_cmp cmp x (y # ys) =
     (if cmp x y \<le> 0 then x # y # ys else y # insort_cmp cmp x ys)"

definition sort_cmp :: "('a \<Rightarrow> 'a \<Rightarrow> int) \<Rightarrow> 'a list \<Rightarrow> 'a list" where
  "sort_cmp cmp xs = foldr (insort_cmp cmp) xs []"

text \<open>
  The same on an array that may hold \<^verbatim>\<open>undefined\<close>: those elements go to the end
  and the comparator is never called on them.
\<close>

definition js_sort :: "('a \<Rightarrow> 'a \<Rightarrow> int) \<Rightarrow> 'a option list \<Rightarrow> 'a option list" where
  "js_sort cmp xs =
     map Some (sort_cmp cmp (concat (map (\<lambda>x. case x of None \<Rightarrow> [] | Some y \<Rightarrow> [y]) xs)))
       @ filter (\<lambda>x. x = None) xs"

text \<open>\<^verbatim>\<open>Set.add\<close>, the set kept in insertion order.\<close>

definition set_add :: "int list \<Rightarrow> int \<Rightarrow> int list" where
  "set_add s x = (if x \<in> set s then s else s @ [x])"

section \<open>The store (src/database.ts)\<close>

text \<open>
  Every method of Database takes a connection of its own from the pool and runs one
  statement, which is committed by itself; there is no transaction. A statement is a
  function of the table. The value of NOW() is the argument \<open>now\<close> of a method;
  identify passes the clock of the database, the same for all statements of one
  invocation. Outside the model: a lost connection, the end of the id sequence, and the
  key constraints of the schema of createTable (unique ids, a link to an existing row),
  which the stores are taken to satisfy.
\<close>

text \<open>
  A text parameter of a statement, or none: the database rejects a text that holds a
  NUL character.
\<close>

definition text_param :: "string option \<Rightarrow> bool" where
  "text_param v = (case v of None \<Rightarrow> True | Some s \<Rightarrow> CHR 0x00 \<notin> set s)"

text \<open>
  findContactsByEmailOrPhone: one condition and one parameter per truthy argument, the
  conditions joined by OR; with no condition the statement is not valid SQL. ORDER BY
  created_at ASC compares the stored timestamps and fixes no order among rows of equal
  created_at: that order is the database's choice, the argument \<open>tie\<close>, which ranks the
  rows (rows that it ranks alike come in the order of the enumeration).
\<close>

definition findContactsByEmailOrPhone ::
  "(contact \<Rightarrow> int) \<Rightarrow> string option \<Rightarrow> string option \<Rightarrow> database \<Rightarrow> error + contact list" where
  "findContactsByEmailOrPhone tie em ph db =
     (if \<not> truthy em \<and> \<not> truthy ph then Inl QueryError
      else if (truthy em \<and> \<not> text_param em) \<or> (truthy ph \<and> \<not> text_param ph)
      then Inl DataError
      else Inr (sort_key (\<lambda>c. (createdAt c, tie c))
             (filter (\<lambda>c. deletedAt c = None \<and>
                 ((truthy em \<and> email c = em) \<or> (truthy ph \<and> phoneNumber c = ph)))
               (rows db))))"

text \<open>
  The recursive step of the query in getLinkedContacts: the rows joined with the working
  table on \<^verbatim>\<open>c.linked_id = ct.id\<close>, one copy for each match (UNION ALL).
\<close>

definition linked_rows :: "contact list \<Rightarrow> contact list \<Rightarrow> contact list" where
  "linked_rows tbl work =
     concat (map (\<lambda>c. map (\<lambda>ct. c) (filter (\<lambda>ct. linkedId c = Some (id_c ct)) work))
       (filter (\<lambda>c. deletedAt c = None) tbl))"

text \<open>
  WITH RECURSIVE contact_tree: the working table is replaced by the rows linked to it
  until it is empty; every working table is part of the result. \<open>None\<close> is a query that
  never ends.
\<close>

partial_function (option) contact_tree :: "contact list \<Rightarrow> contact list \<Rightarrow> contact list option" where
  "contact_tree tbl work =
     (if work = [] then Some []
      else Option.bind (contact_tree tbl (linked_rows tbl work)) (\<lambda>rest. Some (work @ rest)))"

declare contact_tree.simps [code]

text \<open>The sort key of \<^verbatim>\<open>ORDER BY created_at ASC, id ASC\<close>, compared lexicographically.\<close>

definition order_key :: "contact \<Rightarrow> int \<times> int" where
  "order_key c = (createdAt c, id_c c)"

definition getLinkedContacts :: "int \<Rightarrow> database \<Rightarrow> contact list option" where
  "getLinkedContacts primaryId db =
     map_option (sort_key order_key)
       (contact_tree (rows db)
          (filter (\<lambda>c. id_c c = primaryId \<and> deletedAt c = None) (rows db)))"

text \<open>
  A value assigned to a VARCHAR(n) column: a longer value is rejected, unless what
  exceeds the n characters is spaces only, which are cut off.
\<close>

definition varchar :: "nat \<Rightarrow> string option \<Rightarrow> error + string option" where
  "varchar n v =
     (case v of None \<Rightarrow> Inr None
      | Some s \<Rightarrow>
          if length s \<le> n then Inr (Some s)
          else if list_all (\<lambda>ch. ch = CHR '' '') (drop n s) then Inr (Some (take n s))
          else Inl DataError)"

text \<open>
  createContact: email is VARCHAR(255) and phone_number VARCHAR(20). The INSERT takes
  the id from the sequence, both timestamps from NOW(), and leaves deleted_at NULL. The
  values are checked before the sequence is read: a rejected INSERT leaves the database
  as it was.
\<close>

definition createContact ::
  "int \<Rightarrow> string option \<Rightarrow> string option \<Rightarrow> int option \<Rightarrow> precedence \<Rightarrow> database
     \<Rightarrow> error + contact \<times> database" where
  "createContact now em ph lid prec db =
     (if \<not> text_param em \<or> \<not> text_param ph then Inl DataError
      else case varchar 255 em of
        Inl e \<Rightarrow> Inl e
      | Inr em' \<Rightarrow>
          (case varchar 20 ph of
             Inl e \<Rightarrow> Inl e
           | Inr ph' \<Rightarrow>
               (let c = \<lparr>id_c = next_id db, phoneNumber = ph', email = em', linkedId = lid,
                         linkPrecedence = prec, createdAt = now, updatedAt = now,
                         deletedAt = None\<rparr>
                in Inr (c, db\<lparr>rows := rows db @ [c], next_id := next_id db + 1\<rparr>))))"

definition updateContactToSecondary :: "int \<Rightarrow> int \<Rightarrow> int \<Rightarrow> database \<Rightarrow> database" where
  "updateContactToSecondary now contactId lid db =
     db\<lparr>rows := map (\<lambda>c. if id_c c = contactId
                          then c\<lparr>linkedId := Some lid, linkPrecedence := Secondary,
                                 updatedAt := now\<rparr>
                          else c) (rows db)\<rparr>"

definition updateLinkedContactsPrimary :: "int \<Rightarrow> int \<Rightarrow> int \<Rightarrow> database \<Rightarrow> database" where
  "updateLinkedContactsPrimary now oldPrimaryId newPrimaryId db =
     db\<lparr>rows := map (\<lambda>c. if linkedId c = Some oldPrimaryId
                          then c\<lparr>linkedId := Some newPrimaryId, updatedAt := now\<rparr>
                          else c) (rows db)\<rparr>"

section \<open>The service (ContactService)\<close>

text \<open>The comparator of buildConsolidatedContact.\<close>

definition cmp_view :: "contact \<Rightarrow> contact \<Rightarrow> int" where
  "cmp_view a b =
     (if linkPrecedence a = Primary \<and> linkPrecedence b = Secondary then - 1
      else if linkPrecedence a = Secondary \<and> linkPrecedence b = Primary then 1
      else getTime (createdAt a) - getTime (createdAt b))"

text \<open>One round of the loop over the secondaries, for one of the two arrays.\<close>

definition push_unique :: "string list \<Rightarrow> string option \<Rightarrow> string list" where
  "push_unique acc v =
     (case v of None \<Rightarrow> acc
      | Some s \<Rightarrow> if s \<noteq> [] \<and> s \<notin> set acc then acc @ [s] else acc)"

definition buildConsolidatedContact :: "contact list \<Rightarrow> error + consolidatedContact" where
  "buildConsolidatedContact contacts =
     (let sortedContacts = sort_cmp cmp_view contacts;
          secondaryContacts = filter (\<lambda>c. linkPrecedence c = Secondary) sortedContacts
      in case find (\<lambda>c. linkPrecedence c = Primary) sortedContacts of
           None \<Rightarrow> Inl TypeError
         | Some primaryContact \<Rightarrow>
             Inr \<lparr>primaryContatctId = id_c primaryContact,
                  emails = foldl push_unique
                     (if truthy (email primaryContact) then [the (email primaryContact)] else [])
                     (map email secondaryContacts),
                  phoneNumbers = foldl push_unique
                     (if truthy (phoneNumber primaryContact)
                      then [the (phoneNumber primaryContact)] else [])
                     (map phoneNumber secondaryContacts),
                  secondaryContactIds = map id_c secondaryContacts\<rparr>)"

text \<open>
  The ids collected in allPrimaryIds, in insertion order: the matched primaries, then
  the truthy linkedId of each matched secondary.
\<close>

definition uniquePrimaryIds :: "contact list \<Rightarrow> int list" where
  "uniquePrimaryIds existingContacts =
     foldl set_add []
       (map id_c (filter (\<lambda>c. linkPrecedence c = Primary) existingContacts)
        @ map (\<lambda>c. the (linkedId c))
            (filter (\<lambda>c. truthy_num (linkedId c))
               (filter (\<lambda>c. linkPrecedence c = Secondary) existingContacts)))"

text \<open>
  The end of both branches of identify: the check for new information on the
  materialized cluster, the optional new secondary, the view. When the INSERT is
  rejected the invocation throws there.
\<close>

definition hasNew :: "string option \<Rightarrow> string option list \<Rightarrow> bool" where
  "hasNew v existing = (truthy v \<and> v \<notin> set (filter truthy existing))"

definition extend_cluster ::
  "int \<Rightarrow> identifyRequest \<Rightarrow> int \<Rightarrow> contact list \<Rightarrow> database
     \<Rightarrow> (error + consolidatedContact) \<times> database" where
  "extend_cluster now request primaryId allLinkedContacts db =
     (if hasNew (email_r request) (map email allLinkedContacts)
         \<or> hasNew (phoneNumber_r request) (map phoneNumber allLinkedContacts)
      then (case createContact now (or_null (email_r request)) (or_null (phoneNumber_r request))
                   (Some primaryId) Secondary db of
              Inl e \<Rightarrow> (Inl e, db)
            | Inr (newSecondary, db') \<Rightarrow>
                (buildConsolidatedContact (allLinkedContacts @ [newSecondary]), db'))
      else (buildConsolidatedContact allLinkedContacts, db))"

text \<open>
  The loop over otherPrimaries. Reading \<^verbatim>\<open>.id\<close> of an undefined element throws, with
  the statements of the earlier rounds already executed.
\<close>

fun demote_all :: "int \<Rightarrow> contact option \<Rightarrow> contact option list \<Rightarrow> database
    \<Rightarrow> error option \<times> database" where
  "demote_all now oldestPrimary [] db = (None, db)"
| "demote_all now oldestPrimary (p # ps) db =
     (case p of None \<Rightarrow> (Some TypeError, db)
      | Some primary \<Rightarrow>
          (case oldestPrimary of None \<Rightarrow> (Some TypeError, db)
           | Some oldest \<Rightarrow>
               demote_all now oldestPrimary ps
                 (updateLinkedContactsPrimary now (id_c primary) (id_c oldest)
                    (updateContactToSecondary now (id_c primary) (id_c oldest) db))))"

text \<open>
  The array allPrimaries: the first primary of each group, sorted by the milliseconds
  of createdAt.
\<close>

definition allPrimaries :: "contact list list \<Rightarrow> contact option list" where
  "allPrimaries groups =
     js_sort (\<lambda>a b. getTime (createdAt a) - getTime (createdAt b))
       (map (find (\<lambda>c. linkPrecedence c = Primary)) groups)"

definition merge_primaries ::
  "int \<Rightarrow> identifyRequest \<Rightarrow> int list \<Rightarrow> database
     \<Rightarrow> ((error + consolidatedContact) \<times> database) option" where
  "merge_primaries now request ids db =
     (case those (map (\<lambda>i. getLinkedContacts i db) ids) of
        None \<Rightarrow> None
      | Some primaryContactsDetails \<Rightarrow>
          (let sorted = allPrimaries primaryContactsDetails;
               oldestPrimary = (case sorted of [] \<Rightarrow> None | p # _ \<Rightarrow> p);
               otherPrimaries = drop 1 sorted
           in case demote_all now oldestPrimary otherPrimaries db of
                (Some e, db') \<Rightarrow> Some (Inl e, db')
              | (None, db') \<Rightarrow>
                  (case oldestPrimary of
                     None \<Rightarrow> Some (Inl TypeError, db')
                   | Some oldest \<Rightarrow>
                       (case getLinkedContacts (id_c oldest) db' of
                          None \<Rightarrow> None
                        | Some allLinkedContacts \<Rightarrow>
                            Some (extend_cluster now request (id_c oldest)
                                    allLinkedContacts db')))))"

text \<open>
  identify, with the order \<open>tie\<close> in which the database returns candidates of equal
  created_at. The result is the response or the error thrown, with the database as the
  invocation leaves it; \<open>None\<close> when a query of the invocation never ends.
\<close>

definition identify ::
  "(contact \<Rightarrow> int) \<Rightarrow> identifyRequest \<Rightarrow> database
     \<Rightarrow> ((error + consolidatedContact) \<times> database) option" where
  "identify tie request db =
     (case findContactsByEmailOrPhone tie (email_r request) (phoneNumber_r request) db of
        Inl e \<Rightarrow> Some (Inl e, db)
      | Inr existingContacts \<Rightarrow>
          if existingContacts = [] then
            (case createContact (clock db) (or_null (email_r request))
                    (or_null (phoneNumber_r request)) None Primary db of
               Inl e \<Rightarrow> Some (Inl e, db)
             | Inr (newContact, db') \<Rightarrow> Some (buildConsolidatedContact [newContact], db'))
          else
            (let ids = uniquePrimaryIds existingContacts in
             if length ids = 1 then
               (case getLinkedContacts (hd ids) db of
                  None \<Rightarrow> None
                | Some allLinkedContacts \<Rightarrow>
                    Some (extend_cluster (clock db) request (hd ids) allLinkedContacts db))
             else if length ids > 1 then merge_primaries (clock db) request ids db
             else Some (Inl UnexpectedState, db)))"

section \<open>Properties of stores and of the mutations\<close>

text \<open>The fields of a contact that no statement of the store rewrites.\<close>

definition immutable_part ::
  "contact \<Rightarrow> int \<times> string option \<times> string option \<times> int \<times> int option" where
  "immutable_part c = (id_c c, email c, phoneNumber c, createdAt c, deletedAt c)"

text \<open>Two versions of a contact that differ at most in the link and in updatedAt.\<close>

definition same_but_link :: "contact \<Rightarrow> contact \<Rightarrow> bool" where
  "same_but_link c c' = (c' = c\<lparr>linkedId := linkedId c', updatedAt := updatedAt c'\<rparr>)"

text \<open>Two versions that differ at most in the link, the precedence and updatedAt.\<close>

definition same_but_demoted :: "contact \<Rightarrow> contact \<Rightarrow> bool" where
  "same_but_demoted c c' =
     (c' = c\<lparr>linkedId := linkedId c', linkPrecedence := linkPrecedence c',
            updatedAt := updatedAt c'\<rparr>)"

text \<open>
  The later store keeps every row of the earlier one at its place with its immutable
  part, and the rows added since have no soft-delete marker.
\<close>

definition frame_ok :: "database \<Rightarrow> database \<Rightarrow> bool" where
  "frame_ok db db' =
     (map immutable_part (take (length (rows db)) (rows db')) = map immutable_part (rows db)
      \<and> list_all (\<lambda>c. deletedAt c = None) (drop (length (rows db)) (rows db')))"

section \<open>The statements of the specification\<close>

text \<open>
  A value is present when it is neither null nor the empty string; the given value of a
  request field is the field when it is present, and null otherwise.
\<close>

definition present :: "string option \<Rightarrow> bool" where
  "present v = (v \<noteq> None \<and> v \<noteq> Some [])"

definition given_value :: "string option \<Rightarrow> string option" where
  "given_value v = (if present v then v else None)"

text \<open>
  Candidate lookup: the non-deleted contacts whose email equals the given email or
  whose phone equals the given phone.
\<close>

definition matches :: "string option \<Rightarrow> string option \<Rightarrow> contact \<Rightarrow> bool" where
  "matches em ph c =
     (deletedAt c = None \<and>
      ((em \<noteq> None \<and> email c = em) \<or> (ph \<noteq> None \<and> phoneNumber c = ph)))"

text \<open>
  The links read in the direction in which materialization follows them: \<open>y\<close> is a
  non-deleted contact of the table linked to \<open>x\<close>.
\<close>

definition child :: "contact list \<Rightarrow> contact \<Rightarrow> contact \<Rightarrow> bool" where
  "child tbl x y = (y \<in> set tbl \<and> deletedAt y = None \<and> linkedId y = Some (id_c x))"

text \<open>
  A link cycle lies below the id \<open>i\<close>: from a non-deleted contact with that id, the
  contacts linked to it, the contacts linked to those, and so on, one reaches a contact
  that is, through one or more links, linked to itself.
\<close>

definition cycle_below :: "int \<Rightarrow> contact list \<Rightarrow> bool" where
  "cycle_below i tbl =
     (\<exists>b\<in>set tbl. id_c b = i \<and> deletedAt b = None \<and>
        (\<exists>x. (child tbl)\<^sup>*\<^sup>* b x \<and> (child tbl)\<^sup>+\<^sup>+ x x))"

text \<open>The present values of a list of fields, in order.\<close>

definition present_values :: "string option list \<Rightarrow> string list" where
  "present_values vs = map the (filter present vs)"

text \<open>First-seen-wins de-duplication: a value already emitted is skipped.\<close>

primrec first_seen :: "'a set \<Rightarrow> 'a list \<Rightarrow> 'a list" where
  "first_seen emitted [] = []"
| "first_seen emitted (x # xs) =
     (if x \<in> emitted then first_seen emitted xs else x # first_seen (insert x emitted) xs)"

text \<open>
  The consolidated view of a cluster with primary \<open>p\<close>, as section 4.3 words it: the
  primary's id; the primary's email, then the secondaries' emails in (createdAt, id)
  order, present and not yet emitted; the phone numbers likewise; the ids of the
  members that are not primary, in (createdAt, id) order.
\<close>

definition consolidated_view :: "contact \<Rightarrow> contact list \<Rightarrow> consolidatedContact" where
  "consolidated_view p cluster =
     (let secondaries = sort_key order_key (filter (\<lambda>c. linkPrecedence c \<noteq> Primary) cluster)
      in \<lparr>primaryContatctId = id_c p,
          emails = first_seen {} (present_values (email p # map email secondaries)),
          phoneNumbers =
            first_seen {} (present_values (phoneNumber p # map phoneNumber secondaries)),
          secondaryContactIds = map id_c secondaries\<rparr>)"

text \<open>The milliseconds of createdAt, which is all that the service compares.\<close>

definition created_ms :: "contact \<Rightarrow> int" where
  "created_ms c = getTime (createdAt c)"

text \<open>The comparator of buildConsolidatedContact orders by this key.\<close>

definition view_key :: "contact \<Rightarrow> int \<times> int" where
  "view_key c = (if linkPrecedence c = Primary then 0 else 1, created_ms c)"

text \<open>
  The invariants of section 3 on a store: the id sequence is ahead of every id, ids
  are positive and unique, no contact is soft-deleted, a primary has no link, and the
  link of a secondary is the id of a primary.
\<close>

definition store_inv :: "database \<Rightarrow> bool" where
  "store_inv db =
     (0 < next_id db \<and> distinct (map id_c (rows db)) \<and>
      (\<forall>c\<in>set (rows db).
         0 < id_c c \<and> id_c c < next_id db \<and> deletedAt c = None \<and>
         (case linkPrecedence c of
            Primary \<Rightarrow> linkedId c = None
          | Secondary \<Rightarrow>
              (\<exists>p\<in>set (rows db). linkPrecedence p = Primary \<and> linkedId c = Some (id_c p)))))"

text \<open>Invariant 2 alone: every secondary is linked to a primary.\<close>

definition star_topology :: "database \<Rightarrow> bool" where
  "star_topology db =
     (\<forall>c\<in>set (rows db). linkPrecedence c = Secondary \<longrightarrow>
        (\<exists>p\<in>set (rows db). linkPrecedence p = Primary \<and> linkedId c = Some (id_c p)))"

definition is_primary_id :: "database \<Rightarrow> int \<Rightarrow> bool" where
  "is_primary_id db i = (\<exists>p\<in>set (rows db). id_c p = i \<and> linkPrecedence p = Primary)"

text \<open>The stored contact with a given id.\<close>

definition row_of :: "database \<Rightarrow> int \<Rightarrow> contact" where
  "row_of db i = the (find (\<lambda>c. id_c c = i) (rows db))"

text \<open>
  Step 3 of section 4.2: the owning primary id of a contact is its own id if it is a
  primary, else its link; the owning ids of the candidates are collected, each once.
\<close>

definition owner :: "contact \<Rightarrow> int option" where
  "owner c = (case linkPrecedence c of Primary \<Rightarrow> Some (id_c c) | Secondary \<Rightarrow> linkedId c)"

definition owning_ids :: "contact list \<Rightarrow> int list" where
  "owning_ids candidates = remdups (List.map_filter owner candidates)"

text \<open>The contacts of the clusters of the given primaries.\<close>

definition members :: "int list \<Rightarrow> database \<Rightarrow> contact list" where
  "members ids db = filter (\<lambda>c. owner c \<in> Some ` set ids) (rows db)"

text \<open>
  A stored contact that is one of the given primaries, none of which was created in an
  earlier millisecond.
\<close>

definition earliest :: "database \<Rightarrow> int list \<Rightarrow> contact \<Rightarrow> bool" where
  "earliest db ids p =
     (p \<in> set (rows db) \<and> linkPrecedence p = Primary \<and> id_c p \<in> set ids \<and>
      (\<forall>q\<in>set (rows db). id_c q \<in> set ids \<longrightarrow> created_ms p \<le> created_ms q))"

text \<open>
  The primaries that the code finds for a candidate list, as it sorts them: by the
  milliseconds of createdAt, those of equal milliseconds in the order in which the
  candidate list reaches them.
\<close>

definition touched :: "database \<Rightarrow> contact list \<Rightarrow> contact list" where
  "touched db existing = sort_key created_ms (map (row_of db) (uniquePrimaryIds existing))"

text \<open>
  The merge step of section 4.2 on one contact: an absorbed primary becomes a secondary
  of the surviving primary, a contact linked to an absorbed primary is linked to the
  surviving one, any other contact stays as it is.
\<close>

definition merge_row :: "int \<Rightarrow> int list \<Rightarrow> int \<Rightarrow> contact \<Rightarrow> contact" where
  "merge_row now absorbed surviving c =
     (if id_c c \<in> set absorbed
      then c\<lparr>linkedId := Some surviving, linkPrecedence := Secondary, updatedAt := now\<rparr>
      else if linkedId c \<in> Some ` set absorbed
      then c\<lparr>linkedId := Some surviving, updatedAt := now\<rparr>
      else c)"

definition merged :: "int \<Rightarrow> contact \<Rightarrow> contact list \<Rightarrow> database \<Rightarrow> database" where
  "merged now surviving others db =
     db\<lparr>rows := map (merge_row now (map id_c others) (id_c surviving)) (rows db)\<rparr>"

text \<open>A primary with the contacts linked to it.\<close>

definition cluster_rows :: "contact \<Rightarrow> database \<Rightarrow> contact list" where
  "cluster_rows p db = p # filter (\<lambda>c. linkedId c = Some (id_c p)) (rows db)"

text \<open>
  The observation introduces a value absent from the cluster: its email is present and
  is the email of no member, or its phone is present and is the phone of no member.
\<close>

definition introduces_new :: "identifyRequest \<Rightarrow> contact list \<Rightarrow> bool" where
  "introduces_new request cluster =
     ((present (email_r request) \<and> email_r request \<notin> email ` set cluster)
      \<or> (present (phoneNumber_r request) \<and> phoneNumber_r request \<notin> phoneNumber ` set cluster))"

text \<open>
  A value and a column of n characters: the value fits, being a text without NUL
  character of at most n characters; the column refuses the value, which holds a NUL
  character or something else than spaces beyond the n characters; what the column
  holds of a value that it does not refuse.
\<close>

definition has_nul :: "string option \<Rightarrow> bool" where
  "has_nul v = (case v of None \<Rightarrow> False | Some s \<Rightarrow> CHR 0x00 \<in> set s)"

definition fits :: "nat \<Rightarrow> string option \<Rightarrow> bool" where
  "fits n v = (\<not> has_nul v \<and> (case v of None \<Rightarrow> True | Some s \<Rightarrow> length s \<le> n))"

definition refused :: "nat \<Rightarrow> string option \<Rightarrow> bool" where
  "refused n v =
     (has_nul v
      \<or> (case v of None \<Rightarrow> False | Some s \<Rightarrow> \<exists>ch\<in>set (drop n s). ch \<noteq> CHR '' ''))"

definition held :: "nat \<Rightarrow> string option \<Rightarrow> string option" where
  "held n v = map_option (take n) v"

text \<open>The given values of a request fit the columns; one of them is refused.\<close>

definition fits_columns :: "identifyRequest \<Rightarrow> bool" where
  "fits_columns request =
     (fits 255 (given_value (email_r request)) \<and> fits 20 (given_value (phoneNumber_r request)))"

definition rejected :: "identifyRequest \<Rightarrow> bool" where
  "rejected request =
     (refused 255 (given_value (email_r request))
      \<or> refused 20 (given_value (phoneNumber_r request)))"

text \<open>
  The secondary with the given email and phone, linked to a primary; the same with
  the values as the columns hold them; a store with one more contact.
\<close>

definition new_secondary :: "int \<Rightarrow> identifyRequest \<Rightarrow> int \<Rightarrow> database \<Rightarrow> contact" where
  "new_secondary now request primaryId db =
     \<lparr>id_c = next_id db, phoneNumber = given_value (phoneNumber_r request),
      email = given_value (email_r request), linkedId = Some primaryId,
      linkPrecedence = Secondary, createdAt = now, updatedAt = now, deletedAt = None\<rparr>"

definition held_secondary :: "int \<Rightarrow> identifyRequest \<Rightarrow> int \<Rightarrow> database \<Rightarrow> contact" where
  "held_secondary now request primaryId db =
     (new_secondary now request primaryId db)
       \<lparr>phoneNumber := held 20 (given_value (phoneNumber_r request)),
        email := held 255 (given_value (email_r request))\<rparr>"

definition inserted :: "contact \<Rightarrow> database \<Rightarrow> database" where
  "inserted c db = db\<lparr>rows := rows db @ [c], next_id := next_id db + 1\<rparr>"

text \<open>
  The rows that an invocation adds to a cluster: none when the observation introduces
  nothing new; else the new secondary with the given values when they fit the columns;
  none when a value is refused; else the secondary with the values as the columns hold
  them.
\<close>

definition new_rows :: "identifyRequest \<Rightarrow> contact list \<Rightarrow> int \<Rightarrow> database \<Rightarrow> contact list" where
  "new_rows request cluster primaryId db =
     (if \<not> introduces_new request cluster then []
      else if fits_columns request then [new_secondary (clock db) request primaryId db]
      else if rejected request then []
      else [held_secondary (clock db) request primaryId db])"

text \<open>
  A history: invocations of identify one after the other, each some time after the one
  before (the clock does not run backwards), with the order in which the database
  returns the candidates of equal created_at, on the store the one before has left (also
  when that one has thrown).
\<close>

fun run :: "(nat \<times> (contact \<Rightarrow> int) \<times> identifyRequest) list \<Rightarrow> database \<Rightarrow> database option" where
  "run [] db = Some db"
| "run ((delay, tie, request) # calls) db =
     (case identify tie request (db\<lparr>clock := clock db + int delay\<rparr>) of
        None \<Rightarrow> None
      | Some (_, db') \<Rightarrow> run calls db')"

text \<open>
  Invariant 4 in milliseconds and without the tie-break: no member of a cluster was
  created in an earlier millisecond than its primary.
\<close>

definition oldest_first :: "database \<Rightarrow> bool" where
  "oldest_first db =
     (\<forall>c\<in>set (rows db). \<forall>p\<in>set (rows db).
        linkedId c = Some (id_c p) \<longrightarrow> created_ms p \<le> created_ms c)"

text \<open>
  Invariant 4 as the specification words it: the primary is the first member of its
  cluster by (createdAt, id).
\<close>

definition first_by_key :: "database \<Rightarrow> bool" where
  "first_by_key db =
     (\<forall>c\<in>set (rows db). \<forall>p\<in>set (rows db).
        linkedId c = Some (id_c p) \<longrightarrow> order_key p \<le> order_key c)"

text \<open>No stored contact was created after the present time of the store.\<close>

definition no_future :: "database \<Rightarrow> bool" where
  "no_future db = (\<forall>c\<in>set (rows db). createdAt c \<le> clock db)"

section \<open>Example stores\<close>

text \<open>
  An order among candidates of equal created_at: the contact written last comes last.
\<close>

definition last_written :: "contact \<Rightarrow> int" where
  "last_written c = updatedAt c"

text \<open>A store whose only row is a secondary without a link.\<close>

definition orphan_db :: database where
  "orphan_db =
     \<lparr>rows = [\<lparr>id_c = 1, phoneNumber = None, email = Some ''a'', linkedId = None,
               linkPrecedence = Secondary, createdAt = 1000, updatedAt = 1000,
               deletedAt = None\<rparr>],
      next_id = 2, clock = 7000\<rparr>"

definition orphan_request :: identifyRequest where
  "orphan_request = \<lparr>email_r = Some ''a'', phoneNumber_r = None\<rparr>"

text \<open>
  Scenario C of the specification: primary 1 with email a, the later primary 5 with
  phone p, and 6, a secondary of 5. The request carries a and p.
\<close>

definition scenario_c_db :: database where
  "scenario_c_db =
     \<lparr>rows = [\<lparr>id_c = 1, phoneNumber = None, email = Some ''a'', linkedId = None,
               linkPrecedence = Primary, createdAt = 10000, updatedAt = 10000,
               deletedAt = None\<rparr>,
              \<lparr>id_c = 5, phoneNumber = Some ''p'', email = None, linkedId = None,
               linkPrecedence = Primary, createdAt = 20000, updatedAt = 20000,
               deletedAt = None\<rparr>,
              \<lparr>id_c = 6, phoneNumber = Some ''p'', email = Some ''c'', linkedId = Some 5,
               linkPrecedence = Secondary, createdAt = 30000, updatedAt = 30000,
               deletedAt = None\<rparr>],
      next_id = 7, clock = 40000\<rparr>"

definition scenario_c_request :: identifyRequest where
  "scenario_c_request = \<lparr>email_r = Some ''a'', phoneNumber_r = Some ''p''\<rparr>"

definition scenario_c_after :: database where
  "scenario_c_after =
     \<lparr>rows = [\<lparr>id_c = 1, phoneNumber = None, email = Some ''a'', linkedId = None,
               linkPrecedence = Primary, createdAt = 10000, updatedAt = 10000,
               deletedAt = None\<rparr>,
              \<lparr>id_c = 5, phoneNumber = Some ''p'', email = None, linkedId = Some 1,
               linkPrecedence = Secondary, createdAt = 20000, updatedAt = 40000,
               deletedAt = None\<rparr>,
              \<lparr>id_c = 6, phoneNumber = Some ''p'', email = Some ''c'', linkedId = Some 1,
               linkPrecedence = Secondary, createdAt = 30000, updatedAt = 40000,
               deletedAt = None\<rparr>],
      next_id = 7, clock = 40000\<rparr>"

definition scenario_c_view :: consolidatedContact where
  "scenario_c_view =
     \<lparr>primaryContatctId = 1, emails = [''a'', ''c''], phoneNumbers = [''p''],
      secondaryContactIds = [5, 6]\<rparr>"

text \<open>
  Two contacts with the same created_at; contact 1 has been rewritten since, when it
  was made a secondary of 2.
\<close>

definition same_time_db :: database where
  "same_time_db =
     \<lparr>rows = [\<lparr>id_c = 1, phoneNumber = None, email = Some ''e'', linkedId = Some 2,
               linkPrecedence = Secondary, createdAt = 1000, updatedAt = 3000,
               deletedAt = None\<rparr>,
              \<lparr>id_c = 2, phoneNumber = Some ''p'', email = Some ''e'', linkedId = None,
               linkPrecedence = Primary, createdAt = 1000, updatedAt = 1000,
               deletedAt = None\<rparr>],
      next_id = 3, clock = 4000\<rparr>"

text \<open>Two contacts that link to each other, and a third linked to the first.\<close>

definition cycle_db :: database where
  "cycle_db =
     \<lparr>rows = [\<lparr>id_c = 1, phoneNumber = None, email = Some ''a'', linkedId = Some 2,
               linkPrecedence = Secondary, createdAt = 1000, updatedAt = 1000,
               deletedAt = None\<rparr>,
              \<lparr>id_c = 2, phoneNumber = None, email = Some ''b'', linkedId = Some 1,
               linkPrecedence = Secondary, createdAt = 2000, updatedAt = 2000,
               deletedAt = None\<rparr>,
              \<lparr>id_c = 3, phoneNumber = None, email = Some ''c'', linkedId = Some 1,
               linkPrecedence = Secondary, createdAt = 3000, updatedAt = 3000,
               deletedAt = None\<rparr>],
      next_id = 4, clock = 4000\<rparr>"

text \<open>A malformed chain: 3 is linked to 2, which is itself a secondary of 1.\<close>

definition chain_db :: database where
  "chain_db =
     \<lparr>rows = [\<lparr>id_c = 1, phoneNumber = None, email = Some ''a'', linkedId = None,
               linkPrecedence = Primary, createdAt = 1000, updatedAt = 1000,
               deletedAt = None\<rparr>,
              \<lparr>id_c = 2, phoneNumber = None, email = Some ''b'', linkedId = Some 1,
               linkPrecedence = Secondary, createdAt = 2000, updatedAt = 2000,
               deletedAt = None\<rparr>,
              \<lparr>id_c = 3, phoneNumber = None, email = Some ''c'', linkedId = Some 2,
               linkPrecedence = Secondary, createdAt = 3000, updatedAt = 3000,
               deletedAt = None\<rparr>],
      next_id = 4, clock = 4000\<rparr>"

text \<open>
  Requests on the store of scenario C: the values of the secondary 6 (scenario D); its
  email with a new phone; its email with a new phone of 21 characters.
\<close>

definition scenario_d_request :: identifyRequest where
  "scenario_d_request = \<lparr>email_r = Some ''c'', phoneNumber_r = Some ''p''\<rparr>"

definition new_phone_request :: identifyRequest where
  "new_phone_request = \<lparr>email_r = Some ''c'', phoneNumber_r = Some ''z''\<rparr>"

definition long_phone_request :: identifyRequest where
  "long_phone_request =
     \<lparr>email_r = Some ''c'', phoneNumber_r = Some ''+49 1511 2345678 9012''\<rparr>"






definition empty_db :: database where
  "empty_db = \<lparr>rows = [], next_id = 1, clock = 0\<rparr>"


text \<open>
  A history from the empty store, the times in microseconds: a primary is created at
  1100 and another at 1900, in the same millisecond; a secondary of the first at 2500;
  and at 3000 comes the observation that bridges the two clusters through that
  secondary. \<open>tie_db\<close> is the store at the last call, \<open>tie_after\<close> the store after it.
\<close>

definition tie_history :: "(nat \<times> (contact \<Rightarrow> int) \<times> identifyRequest) list" where
  "tie_history =
     [(1100, last_written, \<lparr>email_r = Some ''a'', phoneNumber_r = None\<rparr>),
      (800, last_written, \<lparr>email_r = Some ''b'', phoneNumber_r = None\<rparr>),
      (600, last_written, \<lparr>email_r = Some ''a'', phoneNumber_r = Some ''q''\<rparr>),
      (500, last_written, \<lparr>email_r = Some ''b'', phoneNumber_r = Some ''q''\<rparr>)]"

definition tie_db :: database where
  "tie_db =
     \<lparr>rows = [\<lparr>id_c = 1, phoneNumber = None, email = Some ''a'', linkedId = None,
               linkPrecedence = Primary, createdAt = 1100, updatedAt = 1100,
               deletedAt = None\<rparr>,
              \<lparr>id_c = 2, phoneNumber = None, email = Some ''b'', linkedId = None,
               linkPrecedence = Primary, createdAt = 1900, updatedAt = 1900,
               deletedAt = None\<rparr>,
              \<lparr>id_c = 3, phoneNumber = Some ''q'', email = Some ''a'', linkedId = Some 1,
               linkPrecedence = Secondary, createdAt = 2500, updatedAt = 2500,
               deletedAt = None\<rparr>],
      next_id = 4, clock = 3000\<rparr>"

definition tie_request :: identifyRequest where
  "tie_request = \<lparr>email_r = Some ''b'', phoneNumber_r = Some ''q''\<rparr>"

definition tie_after :: database where
  "tie_after =
     \<lparr>rows = [\<lparr>id_c = 1, phoneNumber = None, email = Some ''a'', linkedId = Some 2,
               linkPrecedence = Secondary, createdAt = 1100, updatedAt = 3000,
               deletedAt = None\<rparr>,
              \<lparr>id_c = 2, phoneNumber = None, email = Some ''b'', linkedId = None,
               linkPrecedence = Primary, createdAt = 1900, updatedAt = 1900,
               deletedAt = None\<rparr>,
              \<lparr>id_c = 3, phoneNumber = Some ''q'', email = Some ''a'', linkedId = Some 2,
               linkPrecedence = Secondary, createdAt = 2500, updatedAt = 3000,
               deletedAt = None\<rparr>],
      next_id = 4, clock = 3000\<rparr>"

text \<open>
  A store whose one contact carries a createdAt after the present time of the store,
  the request with its email and a new phone, and the store after that request.
\<close>

definition future_db :: database where
  "future_db =
     \<lparr>rows = [\<lparr>id_c = 1, phoneNumber = None, email = Some ''a'', linkedId = None,
               linkPrecedence = Primary, createdAt = 9000, updatedAt = 9000,
               deletedAt = None\<rparr>],
      next_id = 2, clock = 5000\<rparr>"

definition future_request :: identifyRequest where
  "future_request = \<lparr>email_r = Some ''a'', phoneNumber_r = Some ''p''\<rparr>"

definition future_after :: database where
  "future_after =
     \<lparr>rows = [\<lparr>id_c = 1, phoneNumber = None, email = Some ''a'', linkedId = None,
               linkPrecedence = Primary, createdAt = 9000, updatedAt = 9000,
               deletedAt = None\<rparr>,
              \<lparr>id_c = 2, phoneNumber = Some ''p'', email = Some ''a'', linkedId = Some 1,
               linkPrecedence = Secondary, createdAt = 5000, updatedAt = 5000,
               deletedAt = None\<rparr>],
      next_id = 3, clock = 5000\<rparr>"

definition tie_view :: consolidatedContact where
  "tie_view =
     \<lparr>primaryContatctId = 2, emails = [''b'', ''a''], phoneNumbers = [''q''],
      secondaryContactIds = [1, 3]\<rparr>"

section \<open>Proofs\<close>

subsection \<open>What the mutations leave alone\<close>

lemma frame_ok_iff:
  "frame_ok db db' \<longleftrightarrow>
     (\<exists>xs ys. rows db' = xs @ ys \<and> map immutable_part xs = map immutable_part (rows db)
        \<and> (\<forall>c\<in>set ys. deletedAt c = None))"
proof
  assume "frame_ok db db'"
  then have "rows db' = take (length (rows db)) (rows db') @ drop (length (rows db)) (rows db')
      \<and> map immutable_part (take (length (rows db)) (rows db')) = map immutable_part (rows db)
      \<and> (\<forall>c\<in>set (drop (length (rows db)) (rows db')). deletedAt c = None)"
    by (simp add: frame_ok_def list_all_iff)
  then show "\<exists>xs ys. rows db' = xs @ ys \<and> map immutable_part xs = map immutable_part (rows db)
        \<and> (\<forall>c\<in>set ys. deletedAt c = None)"
    by blast
next
  assume "\<exists>xs ys. rows db' = xs @ ys \<and> map immutable_part xs = map immutable_part (rows db)
        \<and> (\<forall>c\<in>set ys. deletedAt c = None)"
  then obtain xs ys where r: "rows db' = xs @ ys"
    and m: "map immutable_part xs = map immutable_part (rows db)"
    and d: "\<forall>c\<in>set ys. deletedAt c = None"
    by blast
  from m have "length xs = length (rows db)"
    by (rule map_eq_imp_length_eq)
  with r m d show "frame_ok db db'"
    by (simp add: frame_ok_def list_all_iff)
qed

lemma frame_ok_refl: "frame_ok db db"
  by (simp add: frame_ok_def)

lemma immutable_deleted:
  assumes "map immutable_part xs = map immutable_part ys"
  shows "map deletedAt xs = map deletedAt ys"
proof -
  from assms have "map (\<lambda>p. snd (snd (snd (snd p)))) (map immutable_part xs)
           = map (\<lambda>p. snd (snd (snd (snd p)))) (map immutable_part ys)"
    by simp
  then show ?thesis by (simp add: immutable_part_def comp_def)
qed

lemma frame_ok_trans:
  assumes "frame_ok a b" and "frame_ok b c"
  shows "frame_ok a c"
proof -
  from assms(1) obtain xs ys where b: "rows b = xs @ ys"
    and xs: "map immutable_part xs = map immutable_part (rows a)"
    and ys: "\<forall>c\<in>set ys. deletedAt c = None"
    unfolding frame_ok_iff by blast
  from assms(2) obtain us vs where c: "rows c = us @ vs"
    and us: "map immutable_part us = map immutable_part (rows b)"
    and vs: "\<forall>c\<in>set vs. deletedAt c = None"
    unfolding frame_ok_iff by blast
  from us b have "map immutable_part us = map immutable_part xs @ map immutable_part ys"
    by simp
  then obtain u1 u2 where u: "us = u1 @ u2"
    and u1: "map immutable_part u1 = map immutable_part xs"
    and u2: "map immutable_part u2 = map immutable_part ys"
    by (auto simp: map_eq_append_conv)
  from u2 have "map deletedAt u2 = map deletedAt ys" by (rule immutable_deleted)
  then have "set (map deletedAt u2) = set (map deletedAt ys)" by simp
  with ys have "\<forall>c\<in>set u2. deletedAt c = None" by auto
  with vs have "\<forall>c\<in>set (u2 @ vs). deletedAt c = None" by auto
  moreover from c u have "rows c = u1 @ (u2 @ vs)" by simp
  moreover from u1 xs have "map immutable_part u1 = map immutable_part (rows a)" by simp
  ultimately show ?thesis unfolding frame_ok_iff by blast
qed

lemma frame_ok_demote: "frame_ok db (updateContactToSecondary now i l db)"
  by (simp add: frame_ok_def updateContactToSecondary_def immutable_part_def)

lemma frame_ok_relink: "frame_ok db (updateLinkedContactsPrimary now old new db)"
  by (simp add: frame_ok_def updateLinkedContactsPrimary_def immutable_part_def)

lemma frame_ok_create:
  "createContact now em ph lid prec db = Inr (c, db') \<Longrightarrow> frame_ok db db'"
  by (auto simp: frame_ok_def createContact_def Let_def split: sum.splits if_splits)

lemma frame_ok_demote_all: "demote_all now oldest ps db = (e, db') \<Longrightarrow> frame_ok db db'"
proof (induction ps arbitrary: db)
  case Nil
  then show ?case by (simp add: frame_ok_refl)
next
  case (Cons p ps)
  show ?case
  proof (cases p)
    case None
    with Cons.prems show ?thesis by (simp add: frame_ok_refl)
  next
    case (Some primary)
    show ?thesis
    proof (cases oldest)
      case None
      with Some Cons.prems show ?thesis by (simp add: frame_ok_refl)
    next
      case (Some oldestPrimary)
      with \<open>p = Some primary\<close> Cons.prems
      have "frame_ok (updateLinkedContactsPrimary now (id_c primary) (id_c oldestPrimary)
                    (updateContactToSecondary now (id_c primary) (id_c oldestPrimary) db)) db'"
        by (intro Cons.IH) simp
      with frame_ok_demote frame_ok_relink show ?thesis
        by (blast intro: frame_ok_trans)
    qed
  qed
qed

lemma frame_ok_extend:
  "extend_cluster now request pid cl db = (r, db') \<Longrightarrow> frame_ok db db'"
  by (auto simp: extend_cluster_def frame_ok_refl split: if_splits sum.splits prod.splits
        dest: frame_ok_create)

lemma frame_ok_merge:
  assumes "merge_primaries now request ids db = Some (r, db')"
  shows "frame_ok db db'"
  using assms
  by (auto simp: merge_primaries_def Let_def split: option.splits prod.splits
        dest!: frame_ok_demote_all frame_ok_extend intro: frame_ok_trans)

lemma frame_ok_identify:
  assumes "identify tie request db = Some (r, db')"
  shows "frame_ok db db'"
  using assms
  by (auto simp: identify_def Let_def frame_ok_refl
        split: sum.splits if_splits option.splits prod.splits
        dest: frame_ok_merge frame_ok_extend frame_ok_create)

lemma scenario_c_run:
  "identify last_written scenario_c_request scenario_c_db
     = Some (Inr scenario_c_view, scenario_c_after)"
  by code_simp

text \<open>
  C10. The demotion rewrites the link, the precedence and updatedAt of the rows with
  the given id and nothing else; the relinking rewrites the link and updatedAt of the
  rows linked to the old primary and nothing else; the insertion, when it is not
  rejected, appends one row without soft-delete marker; and a whole invocation of
  identify keeps id, email, phone, createdAt and the soft-delete marker of every stored
  contact, and adds no row with a soft-delete marker.
\<close>

theorem mutations_frame:
  "list_all2 (\<lambda>c c'. if id_c c = contactId then same_but_demoted c c' else c' = c)
      (rows db) (rows (updateContactToSecondary now contactId lid db))
   \<and> next_id (updateContactToSecondary now contactId lid db) = next_id db
   \<and> list_all2 (\<lambda>c c'. if linkedId c = Some old then same_but_link c c' else c' = c)
      (rows db) (rows (updateLinkedContactsPrimary now old new db))
   \<and> next_id (updateLinkedContactsPrimary now old new db) = next_id db
   \<and> (createContact now em ph l prec db = Inr (c, db1) \<longrightarrow>
        rows db1 = rows db @ [c] \<and> deletedAt c = None)
   \<and> (\<forall>e. createContact now em ph l prec db = Inl e \<longrightarrow> e = DataError)
   \<and> (identify tie request db = Some (r, db') \<longrightarrow> frame_ok db db')"
proof -
  have "list_all2 (\<lambda>c c'. if id_c c = contactId then same_but_demoted c c' else c' = c)
      (rows db) (rows (updateContactToSecondary now contactId lid db))"
    by (simp add: updateContactToSecondary_def list_all2_conv_all_nth same_but_demoted_def)
  moreover
  have "list_all2 (\<lambda>c c'. if linkedId c = Some old then same_but_link c c' else c' = c)
      (rows db) (rows (updateLinkedContactsPrimary now old new db))"
    by (simp add: updateLinkedContactsPrimary_def list_all2_conv_all_nth same_but_link_def)
  moreover
  have "createContact now em ph l prec db = Inr (c, db1) \<longrightarrow>
        rows db1 = rows db @ [c] \<and> deletedAt c = None"
    by (auto simp: createContact_def Let_def split: sum.splits if_splits)
  moreover
  have "\<forall>e. createContact now em ph l prec db = Inl e \<longrightarrow> e = DataError"
    by (auto simp: createContact_def varchar_def Let_def split: sum.splits option.splits if_splits)
  moreover
  have "next_id (updateContactToSecondary now contactId lid db) = next_id db"
    and "next_id (updateLinkedContactsPrimary now old new db) = next_id db"
    by (simp_all add: updateContactToSecondary_def updateLinkedContactsPrimary_def)
  ultimately show ?thesis
    using frame_ok_identify by blast
qed

theorem mutations_frame_witness:
  "identify last_written scenario_c_request scenario_c_db
     = Some (Inr scenario_c_view, scenario_c_after)
   \<and> frame_ok scenario_c_db scenario_c_after
   \<and> map linkedId (rows scenario_c_after) = [None, Some 1, Some 1]"
proof -
  have run: "identify last_written scenario_c_request scenario_c_db
               = Some (Inr scenario_c_view, scenario_c_after)"
    by (rule scenario_c_run)
  have "identify last_written scenario_c_request scenario_c_db
          = Some (Inr scenario_c_view, scenario_c_after)
        \<longrightarrow> frame_ok scenario_c_db scenario_c_after"
    using mutations_frame [where tie = last_written and request = scenario_c_request
        and db = scenario_c_db and r = "Inr scenario_c_view" and db' = scenario_c_after]
    by blast
  with run have "frame_ok scenario_c_db scenario_c_after" by blast
  moreover have "map linkedId (rows scenario_c_after) = [None, Some 1, Some 1]"
    by (simp add: scenario_c_after_def)
  ultimately show ?thesis using run by blast
qed

subsection \<open>The unreachable state\<close>

text \<open>
  C7. When the lookup returns candidates but none of them yields an owning primary id,
  identify throws its error and the store is the one it started from.
\<close>

theorem identify_no_owner:
  assumes "findContactsByEmailOrPhone tie (email_r request) (phoneNumber_r request) db
             = Inr existing"
    and "existing \<noteq> []"
    and "uniquePrimaryIds existing = []"
  shows "identify tie request db = Some (Inl UnexpectedState, db)"
  using assms by (simp add: identify_def)

theorem identify_no_owner_witness:
  "findContactsByEmailOrPhone last_written (email_r orphan_request)
       (phoneNumber_r orphan_request) orphan_db
     = Inr (rows orphan_db)
   \<and> rows orphan_db \<noteq> []
   \<and> uniquePrimaryIds (rows orphan_db) = []
   \<and> identify last_written orphan_request orphan_db = Some (Inl UnexpectedState, orphan_db)"
proof -
  have f: "findContactsByEmailOrPhone last_written (email_r orphan_request)
             (phoneNumber_r orphan_request) orphan_db = Inr (rows orphan_db)"
    by code_simp
  have n: "rows orphan_db \<noteq> []" by code_simp
  have u: "uniquePrimaryIds (rows orphan_db) = []" by code_simp
  from identify_no_owner [OF f n u] f n u show ?thesis by blast
qed

subsection \<open>Candidate lookup\<close>

lemma truthy_present: "truthy v = present v"
  by (simp add: truthy_def present_def split: option.splits)

lemma or_null_given: "or_null v = given_value v"
  by (simp add: or_null_def given_value_def truthy_present)

lemma sorted_pair_fst: "sorted (map (\<lambda>x. (f x, g x)) xs) \<Longrightarrow> sorted (map f xs)"
  by (induction xs) (auto simp: less_eq_prod_def)

lemma sorted_distinct_pair:
  "sorted (map f xs) \<Longrightarrow> distinct (map f xs) \<Longrightarrow> sorted (map (\<lambda>x. (f x, g x)) xs)"
  by (induction xs) (auto simp: less_eq_prod_def order_less_le)

text \<open>
  C8, as the specification states it, fails: the query orders by created_at alone. Of
  two matching contacts with the same created_at, the database can return the one with
  the larger id first. And not every input with a present field has a result: the
  database rejects a value with a NUL character.
\<close>

theorem findContacts_not_by_id:
  "findContactsByEmailOrPhone last_written (Some ''e'') None same_time_db
     = Inr (rev (rows same_time_db))
   \<and> map id_c (rev (rows same_time_db)) = [2, 1]
   \<and> \<not> sorted (map order_key (rev (rows same_time_db)))
   \<and> present (Some [CHR ''e'', CHR 0x00])
   \<and> findContactsByEmailOrPhone last_written (Some [CHR ''e'', CHR 0x00]) None same_time_db
       = Inl DataError"
  by code_simp

text \<open>
  C8, amended. With at least one field present, the lookup returns exactly the
  non-deleted contacts that match a given field, each once, ordered by createdAt
  ascending, whatever order the database takes among contacts of equal createdAt; the
  result is in (createdAt, id) order when no two of its contacts have the same
  createdAt. This for every store and every such input but one with a NUL character in
  a present value, which the database rejects.
\<close>

theorem findContacts_by_createdAt:
  assumes "present em \<or> present ph"
  shows "if has_nul (given_value em) \<or> has_nul (given_value ph)
         then findContactsByEmailOrPhone tie em ph db = Inl DataError
         else \<exists>cs. findContactsByEmailOrPhone tie em ph db = Inr cs
           \<and> mset cs = mset (filter (matches (given_value em) (given_value ph)) (rows db))
           \<and> sorted (map createdAt cs)
           \<and> (distinct (map createdAt cs) \<longrightarrow> sorted (map order_key cs))"
proof (cases "has_nul (given_value em) \<or> has_nul (given_value ph)")
  case True
  with assms have "findContactsByEmailOrPhone tie em ph db = Inl DataError"
    by (auto simp: findContactsByEmailOrPhone_def truthy_present given_value_def
          text_param_def has_nul_def split: option.splits if_splits)
  with True show ?thesis by simp
next
  case False
  let ?P = "matches (given_value em) (given_value ph)"
  let ?cs = "sort_key (\<lambda>c. (createdAt c, tie c)) (filter ?P (rows db))"
  have P: "?P = (\<lambda>c. deletedAt c = None \<and>
                 ((truthy em \<and> email c = em) \<or> (truthy ph \<and> phoneNumber c = ph)))"
    by (auto simp: matches_def given_value_def fun_eq_iff truthy_present present_def)
  from False have "(truthy em \<longrightarrow> text_param em) \<and> (truthy ph \<longrightarrow> text_param ph)"
    by (auto simp: truthy_present given_value_def text_param_def has_nul_def
          split: option.splits if_splits)
  then have r: "findContactsByEmailOrPhone tie em ph db = Inr ?cs"
    using assms by (auto simp: findContactsByEmailOrPhone_def P truthy_present)
  have "sorted (map (\<lambda>c. (createdAt c, tie c)) ?cs)"
    by (rule sorted_sort_key)
  then have s: "sorted (map createdAt ?cs)"
    by (rule sorted_pair_fst)
  have "sorted (map (\<lambda>c. (createdAt c, id_c c)) ?cs)" if "distinct (map createdAt ?cs)"
    using s that by (rule sorted_distinct_pair)
  then have o: "distinct (map createdAt ?cs) \<longrightarrow> sorted (map order_key ?cs)"
    by (simp add: order_key_def [abs_def])
  have m: "mset ?cs = mset (filter ?P (rows db))"
    by simp
  from r m s o have "\<exists>cs. findContactsByEmailOrPhone tie em ph db = Inr cs
           \<and> mset cs = mset (filter (matches (given_value em) (given_value ph)) (rows db))
           \<and> sorted (map createdAt cs)
           \<and> (distinct (map createdAt cs) \<longrightarrow> sorted (map order_key cs))"
    by blast
  with False show ?thesis by simp
qed

theorem findContacts_by_createdAt_witness:
  "(present (Some ''e'') \<or> present None)
   \<and> findContactsByEmailOrPhone last_written (Some ''e'') None same_time_db
       = Inr (rev (rows same_time_db))
   \<and> mset (rev (rows same_time_db))
       = mset (filter (matches (given_value (Some ''e'')) (given_value None)) (rows same_time_db))
   \<and> sorted (map createdAt (rev (rows same_time_db)))
   \<and> findContactsByEmailOrPhone last_written (Some [CHR ''e'', CHR 0x00]) None same_time_db
       = Inl DataError"
proof -
  have h: "present (Some ''e'') \<or> present None" by (simp add: present_def)
  have n: "\<not> (has_nul (given_value (Some ''e'')) \<or> has_nul (given_value None))"
    by (simp add: has_nul_def given_value_def)
  have f: "findContactsByEmailOrPhone last_written (Some ''e'') None same_time_db
             = Inr (rev (rows same_time_db))"
    by code_simp
  from findContacts_by_createdAt [OF h, of last_written same_time_db] n f
  have a: "mset (rev (rows same_time_db))
       = mset (filter (matches (given_value (Some ''e'')) (given_value None)) (rows same_time_db))
     \<and> sorted (map createdAt (rev (rows same_time_db)))"
    by auto
  have h': "present (Some [CHR ''e'', CHR 0x00]) \<or> present None" by (simp add: present_def)
  have n': "has_nul (given_value (Some [CHR ''e'', CHR 0x00])) \<or> has_nul (given_value None)"
    by (simp add: has_nul_def given_value_def present_def)
  from findContacts_by_createdAt [OF h', of last_written same_time_db] n'
  have b: "findContactsByEmailOrPhone last_written (Some [CHR ''e'', CHR 0x00]) None same_time_db
       = Inl DataError"
    by simp
  from h f a b show ?thesis by blast
qed

subsection \<open>Cluster materialization\<close>

lemma linked_rows_set:
  "set (linked_rows tbl work) =
     {c \<in> set tbl. deletedAt c = None \<and> (\<exists>ct\<in>set work. linkedId c = Some (id_c ct))}"
  by (auto simp: linked_rows_def)

lemma linked_rows_child: "c \<in> set (linked_rows tbl work) = (\<exists>w\<in>set work. child tbl w c)"
  by (auto simp: linked_rows_set child_def)

lemma child_in_table: "(child tbl)\<^sup>+\<^sup>+ x y \<Longrightarrow> y \<in> set tbl"
  by (induction rule: tranclp.induct) (simp_all add: child_def)

lemma finite_below: "finite {y. (child tbl)\<^sup>+\<^sup>+ x y}"
proof (rule finite_subset)
  show "{y. (child tbl)\<^sup>+\<^sup>+ x y} \<subseteq> set tbl"
    using child_in_table by blast
qed simp

lemma below_less:
  assumes "child tbl x y" and "\<not> (child tbl)\<^sup>+\<^sup>+ y y"
  shows "card {z. (child tbl)\<^sup>+\<^sup>+ y z} < card {z. (child tbl)\<^sup>+\<^sup>+ x z}"
proof (rule psubset_card_mono)
  show "finite {z. (child tbl)\<^sup>+\<^sup>+ x z}" by (rule finite_below)
  have "{z. (child tbl)\<^sup>+\<^sup>+ y z} \<subseteq> {z. (child tbl)\<^sup>+\<^sup>+ x z}"
    using assms(1) by (auto intro: tranclp_into_tranclp2)
  moreover have "y \<in> {z. (child tbl)\<^sup>+\<^sup>+ x z}"
    using assms(1) by auto
  moreover have "y \<notin> {z. (child tbl)\<^sup>+\<^sup>+ y z}"
    using assms(2) by simp
  ultimately show "{z. (child tbl)\<^sup>+\<^sup>+ y z} \<subset> {z. (child tbl)\<^sup>+\<^sup>+ x z}"
    by blast
qed

text \<open>Without a cycle below the working table the recursion ends.\<close>

lemma contact_tree_total:
  assumes "\<forall>w\<in>set work. \<forall>x. (child tbl)\<^sup>*\<^sup>* w x \<longrightarrow> \<not> (child tbl)\<^sup>+\<^sup>+ x x"
    and "\<forall>w\<in>set work. card {z. (child tbl)\<^sup>+\<^sup>+ w z} < n"
  shows "\<exists>ys. contact_tree tbl work = Some ys"
  using assms
proof (induction n arbitrary: work)
  case 0
  then have "work = []" by (cases work) auto
  then show ?case by (simp add: contact_tree.simps)
next
  case (Suc n)
  have free: "\<forall>w\<in>set (linked_rows tbl work). \<forall>x. (child tbl)\<^sup>*\<^sup>* w x \<longrightarrow> \<not> (child tbl)\<^sup>+\<^sup>+ x x"
  proof (intro ballI allI impI)
    fix c x assume "c \<in> set (linked_rows tbl work)" and cx: "(child tbl)\<^sup>*\<^sup>* c x"
    then obtain w where w: "w \<in> set work" "child tbl w c"
      by (auto simp: linked_rows_child)
    from w(2) cx have "(child tbl)\<^sup>*\<^sup>* w x" by (rule converse_rtranclp_into_rtranclp)
    with Suc.prems(1) w(1) show "\<not> (child tbl)\<^sup>+\<^sup>+ x x" by blast
  qed
  have less: "\<forall>w\<in>set (linked_rows tbl work). card {z. (child tbl)\<^sup>+\<^sup>+ w z} < n"
  proof
    fix c assume c: "c \<in> set (linked_rows tbl work)"
    then obtain w where w: "w \<in> set work" "child tbl w c"
      by (auto simp: linked_rows_child)
    from free c have "\<not> (child tbl)\<^sup>+\<^sup>+ c c" by blast
    with w(2) have "card {z. (child tbl)\<^sup>+\<^sup>+ c z} < card {z. (child tbl)\<^sup>+\<^sup>+ w z}"
      by (rule below_less)
    moreover from Suc.prems(2) w(1) have "card {z. (child tbl)\<^sup>+\<^sup>+ w z} < Suc n" by blast
    ultimately show "card {z. (child tbl)\<^sup>+\<^sup>+ c z} < n" by simp
  qed
  from Suc.IH [OF free less] obtain ys
    where "contact_tree tbl (linked_rows tbl work) = Some ys" by blast
  then show ?case
    by (subst contact_tree.simps) simp
qed

text \<open>With a cycle below the working table the recursion does not end.\<close>

lemma contact_tree_cycle:
  assumes "contact_tree tbl work = Some ys"
  shows "\<forall>w\<in>set work. \<forall>x. (child tbl)\<^sup>*\<^sup>* w x \<longrightarrow> \<not> (child tbl)\<^sup>+\<^sup>+ x x"
proof (rule contact_tree.raw_induct
    [where P = "\<lambda>t w y. \<forall>b\<in>set w. \<forall>x. (child t)\<^sup>*\<^sup>* b x \<longrightarrow> \<not> (child t)\<^sup>+\<^sup>+ x x",
      OF _ assms])
  fix f :: "contact list \<Rightarrow> contact list \<Rightarrow> contact list option" and t w y
  assume IH: "\<And>t w y. f t w = Some y \<Longrightarrow>
      \<forall>b\<in>set w. \<forall>x. (child t)\<^sup>*\<^sup>* b x \<longrightarrow> \<not> (child t)\<^sup>+\<^sup>+ x x"
    and step: "(if w = [] then Some []
        else Option.bind (f t (linked_rows t w)) (\<lambda>rest. Some (w @ rest))) = Some y"
  show "\<forall>b\<in>set w. \<forall>x. (child t)\<^sup>*\<^sup>* b x \<longrightarrow> \<not> (child t)\<^sup>+\<^sup>+ x x"
  proof (intro ballI allI impI)
    fix b x assume b: "b \<in> set w" and bx: "(child t)\<^sup>*\<^sup>* b x"
    then have "w \<noteq> []" by auto
    with step obtain zs where "f t (linked_rows t w) = Some zs"
      by (auto split: if_splits bind_splits)
    then have next_free:
      "\<forall>c\<in>set (linked_rows t w). \<forall>x. (child t)\<^sup>*\<^sup>* c x \<longrightarrow> \<not> (child t)\<^sup>+\<^sup>+ x x"
      by (rule IH)
    show "\<not> (child t)\<^sup>+\<^sup>+ x x"
    proof
      assume cyc: "(child t)\<^sup>+\<^sup>+ x x"
      from bx show False
      proof (cases rule: converse_rtranclpE)
        case base
        with cyc have "(child t)\<^sup>+\<^sup>+ b b" by simp
        then obtain c where c: "child t b c" "(child t)\<^sup>*\<^sup>* c b"
          by (auto dest: tranclpD)
        with b have "c \<in> set (linked_rows t w)" by (auto simp: linked_rows_child)
        with next_free c(2) have "\<not> (child t)\<^sup>+\<^sup>+ b b" by blast
        with \<open>(child t)\<^sup>+\<^sup>+ b b\<close> show False by simp
      next
        case (step c)
        with b have "c \<in> set (linked_rows t w)" by (auto simp: linked_rows_child)
        with next_free step(2) cyc show False by blast
      qed
    qed
  qed
qed

text \<open>What the recursion collects: the working table and all that lies below it.\<close>

lemma contact_tree_set:
  assumes "contact_tree tbl work = Some ys"
  shows "set ys = {x. \<exists>w\<in>set work. (child tbl)\<^sup>*\<^sup>* w x}"
proof (rule contact_tree.raw_induct
    [where P = "\<lambda>t w y. set y = {x. \<exists>b\<in>set w. (child t)\<^sup>*\<^sup>* b x}", OF _ assms])
  fix f :: "contact list \<Rightarrow> contact list \<Rightarrow> contact list option" and t w y
  assume IH: "\<And>t w y. f t w = Some y \<Longrightarrow> set y = {x. \<exists>b\<in>set w. (child t)\<^sup>*\<^sup>* b x}"
    and step: "(if w = [] then Some []
        else Option.bind (f t (linked_rows t w)) (\<lambda>rest. Some (w @ rest))) = Some y"
  show "set y = {x. \<exists>b\<in>set w. (child t)\<^sup>*\<^sup>* b x}"
  proof (cases "w = []")
    case True
    with step show ?thesis by simp
  next
    case False
    with step obtain rest where r: "f t (linked_rows t w) = Some rest" and y: "y = w @ rest"
      by (auto split: bind_splits)
    from IH [OF r] have rest: "set rest = {x. \<exists>c\<in>set (linked_rows t w). (child t)\<^sup>*\<^sup>* c x}" .
    show ?thesis
    proof (intro set_eqI iffI)
      fix x assume "x \<in> set y"
      then consider "x \<in> set w" | "x \<in> set rest" by (auto simp: y)
      then show "x \<in> {x. \<exists>b\<in>set w. (child t)\<^sup>*\<^sup>* b x}"
      proof cases
        case 1
        then show ?thesis by blast
      next
        case 2
        with rest obtain c where c: "c \<in> set (linked_rows t w)" "(child t)\<^sup>*\<^sup>* c x" by blast
        then obtain b where b: "b \<in> set w" "child t b c" by (auto simp: linked_rows_child)
        from b(2) c(2) have "(child t)\<^sup>*\<^sup>* b x" by (rule converse_rtranclp_into_rtranclp)
        with b(1) show ?thesis by blast
      qed
    next
      fix x assume "x \<in> {x. \<exists>b\<in>set w. (child t)\<^sup>*\<^sup>* b x}"
      then obtain b where b: "b \<in> set w" "(child t)\<^sup>*\<^sup>* b x" by blast
      from b(2) show "x \<in> set y"
      proof (cases rule: converse_rtranclpE)
        case base
        with b(1) show ?thesis by (simp add: y)
      next
        case (step c)
        with b(1) have "c \<in> set (linked_rows t w)" by (auto simp: linked_rows_child)
        with step(2) rest have "x \<in> set rest" by blast
        then show ?thesis by (simp add: y)
      qed
    qed
  qed
qed

lemma cycle_db_loop: "(child (rows cycle_db))\<^sup>+\<^sup>+ (rows cycle_db ! 0) (rows cycle_db ! 0)"
proof -
  have "child (rows cycle_db) (rows cycle_db ! 0) (rows cycle_db ! 1)"
    and "child (rows cycle_db) (rows cycle_db ! 1) (rows cycle_db ! 0)"
    by (simp_all add: child_def cycle_db_def)
  then show ?thesis by (rule tranclp.intros(2) [OF tranclp.intros(1)])
qed

text \<open>
  C9, as the specification states it, fails: the recursive query has no visited-set
  guard. On two contacts linked to each other the working table never becomes empty, and
  the query does not return.
\<close>

theorem getLinkedContacts_cycle: "getLinkedContacts 1 cycle_db = None"
proof -
  have base: "filter (\<lambda>c. id_c c = 1 \<and> deletedAt c = None) (rows cycle_db) = [rows cycle_db ! 0]"
    by (simp add: cycle_db_def)
  have "contact_tree (rows cycle_db) [rows cycle_db ! 0] = None"
  proof (cases "contact_tree (rows cycle_db) [rows cycle_db ! 0]")
    case None
    then show ?thesis .
  next
    case (Some ys)
    from contact_tree_cycle [OF Some] cycle_db_loop show ?thesis by auto
  qed
  with base show ?thesis by (simp add: getLinkedContacts_def)
qed

text \<open>
  C9, amended. Materialization is a query, without effect on the store, and without a
  visited-set guard: it returns if and only if no link cycle lies below the given id.
  When it returns, the result holds the non-deleted contact with the given id and all
  that lies below it, a chain of secondaries linked to secondaries included, in
  (createdAt, id) order.
\<close>

theorem getLinkedContacts_terminates:
  "(\<exists>cs. getLinkedContacts primaryId db = Some cs) = (\<not> cycle_below primaryId (rows db))
   \<and> (\<forall>cs. getLinkedContacts primaryId db = Some cs \<longrightarrow>
         set cs = {x. \<exists>b\<in>set (rows db). id_c b = primaryId \<and> deletedAt b = None
                        \<and> (child (rows db))\<^sup>*\<^sup>* b x}
         \<and> sorted (map order_key cs))"
proof -
  let ?base = "filter (\<lambda>c. id_c c = primaryId \<and> deletedAt c = None) (rows db)"
  let ?free = "\<forall>w\<in>set ?base. \<forall>x. (child (rows db))\<^sup>*\<^sup>* w x \<longrightarrow> \<not> (child (rows db))\<^sup>+\<^sup>+ x x"
  have c: "cycle_below primaryId (rows db) = (\<not> ?free)"
    by (auto simp: cycle_below_def)
  have e2: "(\<exists>ys. contact_tree (rows db) ?base = Some ys) = ?free"
  proof
    assume "\<exists>ys. contact_tree (rows db) ?base = Some ys"
    then show ?free using contact_tree_cycle by blast
  next
    assume f: ?free
    have "\<forall>w\<in>set ?base. card {z. (child (rows db))\<^sup>+\<^sup>+ w z} < Suc (length (rows db))"
    proof
      fix w
      have "{z. (child (rows db))\<^sup>+\<^sup>+ w z} \<subseteq> set (rows db)"
        using child_in_table by blast
      then have "card {z. (child (rows db))\<^sup>+\<^sup>+ w z} \<le> card (set (rows db))"
        by (intro card_mono) simp_all
      also have "\<dots> \<le> length (rows db)" by (rule card_length)
      finally show "card {z. (child (rows db))\<^sup>+\<^sup>+ w z} < Suc (length (rows db))" by simp
    qed
    with f show "\<exists>ys. contact_tree (rows db) ?base = Some ys"
      by (rule contact_tree_total)
  qed
  have e1: "(\<exists>cs. getLinkedContacts primaryId db = Some cs)
      = (\<exists>ys. contact_tree (rows db) ?base = Some ys)"
    by (auto simp: getLinkedContacts_def)
  have iff: "(\<exists>cs. getLinkedContacts primaryId db = Some cs)
      = (\<not> cycle_below primaryId (rows db))"
    unfolding e1 e2 c by (rule not_not [symmetric])
  have res: "set cs = {x. \<exists>b\<in>set (rows db). id_c b = primaryId \<and> deletedAt b = None
                        \<and> (child (rows db))\<^sup>*\<^sup>* b x}
         \<and> sorted (map order_key cs)"
    if g: "getLinkedContacts primaryId db = Some cs" for cs
  proof -
    from g obtain ys where ys: "contact_tree (rows db) ?base = Some ys"
      and cs: "cs = sort_key order_key ys"
      by (auto simp: getLinkedContacts_def)
    from contact_tree_set [OF ys] have "set ys = {x. \<exists>w\<in>set ?base. (child (rows db))\<^sup>*\<^sup>* w x}" .
    then have "set cs = {x. \<exists>b\<in>set (rows db). id_c b = primaryId \<and> deletedAt b = None
                        \<and> (child (rows db))\<^sup>*\<^sup>* b x}"
      by (auto simp: cs)
    moreover have "sorted (map order_key cs)"
      unfolding cs by (rule sorted_sort_key)
    ultimately show ?thesis by blast
  qed
  from iff res show ?thesis by blast
qed

theorem getLinkedContacts_terminates_witness:
  "getLinkedContacts 1 chain_db = Some (rows chain_db)
   \<and> \<not> cycle_below 1 (rows chain_db)
   \<and> getLinkedContacts 3 cycle_db = Some [rows cycle_db ! 2]
   \<and> \<not> cycle_below 3 (rows cycle_db)
   \<and> cycle_below 2 (rows cycle_db)
   \<and> getLinkedContacts 2 cycle_db = None"
proof -
  have a: "getLinkedContacts 1 chain_db = Some (rows chain_db)" by code_simp
  have b: "getLinkedContacts 3 cycle_db = Some [rows cycle_db ! 2]" by code_simp
  have "rows cycle_db ! 1 \<in> set (rows cycle_db)" "id_c (rows cycle_db ! 1) = 2"
    "deletedAt (rows cycle_db ! 1) = None"
    "child (rows cycle_db) (rows cycle_db ! 1) (rows cycle_db ! 0)"
    by (simp_all add: cycle_db_def child_def)
  with cycle_db_loop have c: "cycle_below 2 (rows cycle_db)"
    unfolding cycle_below_def by blast
  from a getLinkedContacts_terminates [of 1 chain_db]
  have a': "\<not> cycle_below 1 (rows chain_db)" by auto
  from b getLinkedContacts_terminates [of 3 cycle_db]
  have b': "\<not> cycle_below 3 (rows cycle_db)" by auto
  from c getLinkedContacts_terminates [of 2 cycle_db]
  have c': "getLinkedContacts 2 cycle_db = None" by auto
  from a a' b b' c c' show ?thesis by blast
qed

subsection \<open>The consolidated view\<close>

lemma cmp_view_le: "(cmp_view a b \<le> 0) = (view_key a \<le> view_key b)"
  by (cases "linkPrecedence a"; cases "linkPrecedence b")
     (auto simp: cmp_view_def view_key_def created_ms_def)

lemma insort_cmp_view: "insort_cmp cmp_view x ys = insort_key view_key x ys"
  by (induction ys) (simp_all add: cmp_view_le)

lemma sort_cmp_view: "sort_cmp cmp_view xs = sort_key view_key xs"
  by (induction xs) (simp_all add: sort_cmp_def insort_cmp_view)

lemma insort_key_agree:
  "\<forall>y\<in>set ys. (f x \<le> f y) = (g x \<le> g y) \<Longrightarrow> insort_key f x ys = insort_key g x ys"
  by (induction ys) auto

lemma sort_key_agree:
  "\<forall>x\<in>set xs. \<forall>y\<in>set xs. (f x \<le> f y) = (g x \<le> g y) \<Longrightarrow> sort_key f xs = sort_key g xs"
proof (induction xs)
  case Nil
  then show ?case by simp
next
  case (Cons a xs)
  then have "sort_key f xs = sort_key g xs" by simp
  moreover from Cons.prems have "\<forall>y\<in>set (sort_key g xs). (f a \<le> f y) = (g a \<le> g y)"
    by simp
  ultimately show ?case by (simp add: insort_key_agree)
qed

lemma filter_sorted_view:
  "filter (\<lambda>c. linkPrecedence c = q) (sort_cmp cmp_view xs)
     = sort_key created_ms (filter (\<lambda>c. linkPrecedence c = q) xs)"
proof -
  have "filter (\<lambda>c. linkPrecedence c = q) (sort_key view_key xs)
          = sort_key view_key (filter (\<lambda>c. linkPrecedence c = q) xs)"
    by (rule filter_sort)
  also have "\<dots> = sort_key created_ms (filter (\<lambda>c. linkPrecedence c = q) xs)"
    by (rule sort_key_agree) (auto simp: view_key_def)
  finally show ?thesis by (simp add: sort_cmp_view)
qed

lemma find_filter: "find P xs = (case filter P xs of [] \<Rightarrow> None | x # _ \<Rightarrow> Some x)"
  by (induction xs) auto

lemma push_unique_first_seen:
  "foldl push_unique acc vs = acc @ first_seen (set acc) (present_values vs)"
proof (induction vs arbitrary: acc)
  case Nil
  then show ?case by (simp add: present_values_def truthy_present)
next
  case (Cons v vs)
  show ?case
  proof (cases "truthy v")
    case False
    then have "push_unique acc v = acc"
      by (auto simp: push_unique_def truthy_def split: option.splits)
    with False Cons.IH [of acc] show ?thesis by (simp add: present_values_def truthy_present)
  next
    case True
    then obtain s where v: "v = Some s" "s \<noteq> []"
      by (auto simp: truthy_def split: option.splits)
    show ?thesis
    proof (cases "s \<in> set acc")
      case True
      with v have "push_unique acc v = acc" by (simp add: push_unique_def)
      with True v \<open>truthy v\<close> Cons.IH [of acc] show ?thesis by (simp add: present_values_def truthy_present)
    next
      case False
      with v have "push_unique acc v = acc @ [s]" by (simp add: push_unique_def)
      with False v \<open>truthy v\<close> Cons.IH [of "acc @ [s]"] show ?thesis
        by (simp add: present_values_def truthy_present)
    qed
  qed
qed

lemma collected_values:
  "foldl push_unique (if truthy v then [the v] else []) vs = first_seen {} (present_values (v # vs))"
  by (simp add: push_unique_first_seen present_values_def truthy_present)

text \<open>What buildConsolidatedContact returns on any array of contacts.\<close>

lemma build_general:
  "buildConsolidatedContact contacts =
     (case sort_key created_ms (filter (\<lambda>c. linkPrecedence c = Primary) contacts) of
        [] \<Rightarrow> Inl TypeError
      | p # _ \<Rightarrow>
          (let secs = sort_key created_ms (filter (\<lambda>c. linkPrecedence c = Secondary) contacts)
           in Inr \<lparr>primaryContatctId = id_c p,
                   emails = first_seen {} (present_values (email p # map email secs)),
                   phoneNumbers =
                     first_seen {} (present_values (phoneNumber p # map phoneNumber secs)),
                   secondaryContactIds = map id_c secs\<rparr>))"
  by (simp add: buildConsolidatedContact_def Let_def find_filter filter_sorted_view collected_values
      split: list.splits)

lemma getTime_mono: "s \<le> t \<Longrightarrow> getTime s \<le> getTime t"
  by (simp add: getTime_def zdiv_mono1)

lemma order_key_ms: "order_key a \<le> order_key b \<Longrightarrow> created_ms a \<le> created_ms b"
  by (auto simp: order_key_def less_eq_prod_def created_ms_def intro!: getTime_mono)

lemma sorted_order_key: "sorted (map order_key xs) \<Longrightarrow> sorted (map created_ms xs)"
  by (induction xs) (auto intro: order_key_ms)

lemma not_primary: "(linkPrecedence c \<noteq> Primary) = (linkPrecedence c = Secondary)"
  by (cases "linkPrecedence c") simp_all

lemma build_sorted:
  assumes "sorted (map order_key cluster)"
    and "find (\<lambda>c. linkPrecedence c = Primary) cluster = Some p"
  shows "buildConsolidatedContact cluster = Inr (consolidated_view p cluster)"
proof -
  have s1: "sort_key created_ms (filter (\<lambda>c. linkPrecedence c = q) cluster)
              = filter (\<lambda>c. linkPrecedence c = q) cluster" for q
    using assms(1) by (intro sort_key_id_if_sorted sorted_filter sorted_order_key)
  have s2: "sort_key order_key (filter (\<lambda>c. linkPrecedence c = Secondary) cluster)
              = filter (\<lambda>c. linkPrecedence c = Secondary) cluster"
    using assms(1) by (intro sort_key_id_if_sorted sorted_filter)
  from assms(2) obtain rest where "filter (\<lambda>c. linkPrecedence c = Primary) cluster = p # rest"
    by (auto simp: find_filter split: list.splits)
  with s1 [of Primary]
  have "sort_key created_ms (filter (\<lambda>c. linkPrecedence c = Primary) cluster) = p # rest"
    by (rule trans)
  then show ?thesis
    unfolding build_general consolidated_view_def not_primary s2 s1 [of Secondary]
    by (simp only: list.case Let_def)
qed

text \<open>
  C6. On a materialized cluster, which is ordered by (createdAt, id), with primary \<open>p\<close>,
  the builder returns the consolidated view of section 4.3. It is a function of the
  cluster alone. Null is read as absent: the guards are truthiness tests, so an empty
  string is skipped as null is.
\<close>

theorem build_view:
  assumes "sorted (map order_key cluster)"
    and "find (\<lambda>c. linkPrecedence c = Primary) cluster = Some p"
  shows "buildConsolidatedContact cluster = Inr (consolidated_view p cluster)"
  using assms by (rule build_sorted)

theorem build_view_witness:
  "sorted (map order_key (rows scenario_c_after))
   \<and> find (\<lambda>c. linkPrecedence c = Primary) (rows scenario_c_after)
       = Some (hd (rows scenario_c_after))
   \<and> buildConsolidatedContact (rows scenario_c_after)
       = Inr (consolidated_view (hd (rows scenario_c_after)) (rows scenario_c_after))
   \<and> consolidated_view (hd (rows scenario_c_after)) (rows scenario_c_after) = scenario_c_view"
proof -
  have s: "sorted (map order_key (rows scenario_c_after))" by code_simp
  have f: "find (\<lambda>c. linkPrecedence c = Primary) (rows scenario_c_after)
             = Some (hd (rows scenario_c_after))"
    by code_simp
  have v: "consolidated_view (hd (rows scenario_c_after)) (rows scenario_c_after)
             = scenario_c_view"
    by code_simp
  from build_view [OF s f] s f v show ?thesis by blast
qed

subsection \<open>Stores that satisfy the invariants\<close>

lemma filter_distinct_key:
  "distinct (map f xs) \<Longrightarrow> x \<in> set xs \<Longrightarrow> filter (\<lambda>y. f y = f x) xs = [x]"
proof (induction xs)
  case Nil
  then show ?case by simp
next
  case (Cons a xs)
  show ?case
  proof (cases "a = x")
    case True
    with Cons.prems have "\<forall>y\<in>set xs. f y \<noteq> f x" by (auto simp: image_iff)
    then have "filter (\<lambda>y. f y = f x) xs = []" by (simp add: filter_empty_conv)
    with True show ?thesis by simp
  next
    case False
    with Cons.prems have "x \<in> set xs" "f a \<noteq> f x" by auto
    with Cons show ?thesis by simp
  qed
qed

lemma linked_rows_single:
  "\<forall>c\<in>set tbl. deletedAt c = None \<Longrightarrow>
     linked_rows tbl [p] = filter (\<lambda>c. linkedId c = Some (id_c p)) tbl"
  by (induction tbl) (simp_all add: linked_rows_def)

lemma linked_rows_none:
  "\<forall>c\<in>set tbl. \<forall>w\<in>set work. linkedId c \<noteq> Some (id_c w) \<Longrightarrow> linked_rows tbl work = []"
  by (auto simp: linked_rows_def filter_empty_conv)

lemma inv_row:
  assumes "store_inv db" and "c \<in> set (rows db)"
  shows "0 < id_c c" and "id_c c < next_id db" and "deletedAt c = None"
    and "linkPrecedence c = Primary \<Longrightarrow> linkedId c = None"
    and "linkPrecedence c = Secondary \<Longrightarrow>
           \<exists>p\<in>set (rows db). linkPrecedence p = Primary \<and> linkedId c = Some (id_c p)"
  using assms by (auto simp: store_inv_def split: precedence.splits)

lemma inv_link_primary:
  assumes "store_inv db" and "c \<in> set (rows db)" and "linkedId c = Some i"
  shows "linkPrecedence c = Secondary \<and> is_primary_id db i"
proof (cases "linkPrecedence c")
  case Primary
  with assms inv_row(4) [of db c] show ?thesis by simp
next
  case Secondary
  with assms inv_row(5) [of db c] show ?thesis by (auto simp: is_primary_id_def)
qed

lemma inv_id_unique:
  assumes "store_inv db" and "c \<in> set (rows db)" and "d \<in> set (rows db)" and "id_c c = id_c d"
  shows "c = d"
  using assms by (auto simp: store_inv_def distinct_map inj_on_def)

lemma row_of_row:
  assumes "store_inv db" and "p \<in> set (rows db)"
  shows "row_of db (id_c p) = p"
proof -
  from assms have "filter (\<lambda>c. id_c c = id_c p) (rows db) = [p]"
    by (simp add: store_inv_def filter_distinct_key)
  then show ?thesis by (simp add: row_of_def find_filter)
qed

lemma primary_row_of:
  assumes "store_inv db" and "is_primary_id db i"
  shows "row_of db i \<in> set (rows db) \<and> id_c (row_of db i) = i
         \<and> linkPrecedence (row_of db i) = Primary"
  using assms by (auto simp: is_primary_id_def row_of_row)

lemma materialize_inv:
  assumes inv: "store_inv db" and p: "p \<in> set (rows db)" and prim: "linkPrecedence p = Primary"
  shows "getLinkedContacts (id_c p) db
           = Some (sort_key order_key (p # filter (\<lambda>c. linkedId c = Some (id_c p)) (rows db)))"
proof -
  let ?kids = "filter (\<lambda>c. linkedId c = Some (id_c p)) (rows db)"
  from inv have del: "\<forall>c\<in>set (rows db). deletedAt c = None"
    by (simp add: store_inv_def)
  from inv have "distinct (map id_c (rows db))" by (simp add: store_inv_def)
  then have "filter (\<lambda>c. id_c c = id_c p) (rows db) = [p]"
    using p by (rule filter_distinct_key)
  moreover from del have "filter (\<lambda>c. id_c c = id_c p \<and> deletedAt c = None) (rows db)
      = filter (\<lambda>c. id_c c = id_c p) (rows db)"
    by (auto intro: filter_cong)
  ultimately have base: "filter (\<lambda>c. id_c c = id_c p \<and> deletedAt c = None) (rows db) = [p]"
    by simp
  from del have l1: "linked_rows (rows db) [p] = ?kids"
    by (rule linked_rows_single)
  have l2: "linked_rows (rows db) ?kids = []"
  proof (rule linked_rows_none, intro ballI)
    fix c w assume c: "c \<in> set (rows db)" and w: "w \<in> set ?kids"
    show "linkedId c \<noteq> Some (id_c w)"
    proof
      assume "linkedId c = Some (id_c w)"
      with inv c have "is_primary_id db (id_c w)" by (blast dest: inv_link_primary)
      then obtain q where q: "q \<in> set (rows db)" "id_c q = id_c w" "linkPrecedence q = Primary"
        by (auto simp: is_primary_id_def)
      from w have w': "w \<in> set (rows db)" "linkedId w = Some (id_c p)" by auto
      with inv q have "q = w" by (blast intro: inv_id_unique)
      moreover from inv w' have "linkPrecedence w = Secondary" by (blast dest: inv_link_primary)
      ultimately show False using q(3) by simp
    qed
  qed
  have "contact_tree (rows db) [p] = Some (p # ?kids)"
    by (subst contact_tree.simps, simp add: l1)
       (cases "?kids = []"; subst contact_tree.simps; simp add: l2; subst contact_tree.simps; simp)
  with base show ?thesis
    by (simp add: getLinkedContacts_def)
qed

lemma materialize_find_primary:
  assumes inv: "store_inv db" and p: "p \<in> set (rows db)" and prim: "linkPrecedence p = Primary"
  shows "find (\<lambda>c. linkPrecedence c = Primary)
           (sort_key order_key (p # filter (\<lambda>c. linkedId c = Some (id_c p)) (rows db))) = Some p"
proof -
  have "filter (\<lambda>c. linkPrecedence c = Primary) (filter (\<lambda>c. linkedId c = Some (id_c p)) (rows db)) = []"
    using inv by (auto simp: filter_empty_conv dest: inv_link_primary)
  with prim have "filter (\<lambda>c. linkPrecedence c = Primary)
      (p # filter (\<lambda>c. linkedId c = Some (id_c p)) (rows db)) = [p]"
    by simp
  then have "filter (\<lambda>c. linkPrecedence c = Primary)
      (sort_key order_key (p # filter (\<lambda>c. linkedId c = Some (id_c p)) (rows db))) = [p]"
    by (simp only: filter_sort) simp
  then show ?thesis by (simp add: find_filter)
qed

lemma merge_row_step:
  assumes "surv \<notin> set (p # ps)"
  shows "merge_row now ps surv
           ((\<lambda>c. if linkedId c = Some p then c\<lparr>linkedId := Some surv, updatedAt := now\<rparr> else c)
              ((\<lambda>c. if id_c c = p
                     then c\<lparr>linkedId := Some surv, linkPrecedence := Secondary, updatedAt := now\<rparr>
                     else c) c))
         = merge_row now (p # ps) surv c"
  using assms by (auto simp: merge_row_def)

lemma demote_all_rows:
  "id_c surv \<notin> id_c ` set ps \<Longrightarrow>
     demote_all now (Some surv) (map Some ps) db = (None, merged now surv ps db)"
proof (induction ps arbitrary: db)
  case Nil
  have "merge_row now [] (id_c surv) = (\<lambda>c. c)"
    by (simp add: fun_eq_iff merge_row_def)
  then show ?case by (simp add: merged_def)
next
  case (Cons p ps)
  then have "id_c surv \<notin> set (id_c p # map id_c ps)" by auto
  then have "\<And>c. merge_row now (map id_c ps) (id_c surv)
           ((\<lambda>c. if linkedId c = Some (id_c p) then c\<lparr>linkedId := Some (id_c surv), updatedAt := now\<rparr> else c)
              ((\<lambda>c. if id_c c = id_c p
                     then c\<lparr>linkedId := Some (id_c surv), linkPrecedence := Secondary, updatedAt := now\<rparr>
                     else c) c))
         = merge_row now (id_c p # map id_c ps) (id_c surv) c"
    by (rule merge_row_step)
  then have "merged now surv ps
      (updateLinkedContactsPrimary now (id_c p) (id_c surv)
         (updateContactToSecondary now (id_c p) (id_c surv) db)) = merged now surv (p # ps) db"
    by (simp add: merged_def updateLinkedContactsPrimary_def updateContactToSecondary_def comp_def)
  with Cons show ?case by simp
qed

lemma set_add_fold:
  "distinct acc \<Longrightarrow>
     distinct (foldl set_add acc xs) \<and> set (foldl set_add acc xs) = set acc \<union> set xs"
  by (induction xs arbitrary: acc) (auto simp: set_add_def)

lemma set_add_fold_empty:
  "distinct (foldl set_add [] xs)" "set (foldl set_add [] xs) = set xs"
  using set_add_fold [of "[]" xs] by simp_all

lemma uniquePrimaryIds_distinct: "distinct (uniquePrimaryIds existing)"
  by (simp only: uniquePrimaryIds_def set_add_fold_empty)

lemma uniquePrimaryIds_set:
  "set (uniquePrimaryIds existing) =
     id_c ` {c \<in> set existing. linkPrecedence c = Primary}
     \<union> (\<lambda>c. the (linkedId c)) `
         {c \<in> set existing. linkPrecedence c = Secondary \<and> truthy_num (linkedId c)}"
  unfolding uniquePrimaryIds_def set_add_fold_empty(2) by auto

lemma findContacts_subset:
  "findContactsByEmailOrPhone tie em ph db = Inr existing \<Longrightarrow> set existing \<subseteq> set (rows db)"
  by (auto simp: findContactsByEmailOrPhone_def split: if_splits)

lemma touched_ids_primary:
  assumes inv: "store_inv db" and sub: "set existing \<subseteq> set (rows db)"
  shows "\<forall>i\<in>set (uniquePrimaryIds existing). is_primary_id db i"
proof
  fix i assume "i \<in> set (uniquePrimaryIds existing)"
  then consider c where "c \<in> set existing" "linkPrecedence c = Primary" "i = id_c c"
    | c where "c \<in> set existing" "linkPrecedence c = Secondary" "truthy_num (linkedId c)"
        "i = the (linkedId c)"
    by (auto simp: uniquePrimaryIds_set)
  then show "is_primary_id db i"
  proof cases
    case 1
    with sub show ?thesis by (auto simp: is_primary_id_def)
  next
    case 2
    then obtain j where "linkedId c = Some j" by (auto simp: truthy_num_def split: option.splits)
    with 2 inv sub show ?thesis by (auto dest: inv_link_primary)
  qed
qed

lemma touched_ids_nonempty:
  assumes inv: "store_inv db" and sub: "set existing \<subseteq> set (rows db)" and ne: "existing \<noteq> []"
  shows "uniquePrimaryIds existing \<noteq> []"
proof -
  from ne obtain c where c: "c \<in> set existing" by (cases existing) auto
  with sub have r: "c \<in> set (rows db)" by blast
  have "set (uniquePrimaryIds existing) \<noteq> {}"
  proof (cases "linkPrecedence c")
    case Primary
    with c show ?thesis by (auto simp: uniquePrimaryIds_set)
  next
    case Secondary
    with inv r obtain p where p: "p \<in> set (rows db)" "linkedId c = Some (id_c p)"
      using inv_row(5) [of db c] by blast
    with inv have "0 < id_c p" using inv_row(1) [of db p] by blast
    with p have "truthy_num (linkedId c)" by (simp add: truthy_num_def)
    with c Secondary show ?thesis by (auto simp: uniquePrimaryIds_set)
  qed
  then show ?thesis by auto
qed

lemma sort_cmp_createdAt:
  "sort_cmp (\<lambda>a b. getTime (createdAt a) - getTime (createdAt b)) xs = sort_key created_ms xs"
proof -
  have i: "insort_cmp (\<lambda>a b. getTime (createdAt a) - getTime (createdAt b)) x ys
             = insort_key created_ms x ys" for x ys
    by (induction ys) (simp_all add: created_ms_def)
  show ?thesis
    by (induction xs) (simp_all add: sort_cmp_def i)
qed

lemma js_sort_defined: "js_sort cmp (map Some xs) = map Some (sort_cmp cmp xs)"
proof -
  have "concat (map (\<lambda>x. case x of None \<Rightarrow> [] | Some y \<Rightarrow> [y]) (map Some xs)) = xs"
    by (induction xs) simp_all
  moreover have "filter (\<lambda>x. x = None) (map Some xs) = []"
    by (induction xs) simp_all
  ultimately show ?thesis by (simp add: js_sort_def)
qed

lemma those_map_Some: "\<forall>x\<in>set xs. f x = Some (g x) \<Longrightarrow> those (map f xs) = Some (map g xs)"
  by (induction xs) simp_all

text \<open>On a store that satisfies the invariants every group has its primary.\<close>

lemma allPrimaries_inv:
  assumes inv: "store_inv db" and ids: "\<forall>i\<in>set ids. is_primary_id db i"
  shows "\<exists>groups. those (map (\<lambda>i. getLinkedContacts i db) ids) = Some groups
           \<and> allPrimaries groups = map Some (sort_key created_ms (map (row_of db) ids))"
proof -
  let ?g = "\<lambda>i. sort_key order_key
      (row_of db i # filter (\<lambda>c. linkedId c = Some i) (rows db))"
  have g: "getLinkedContacts i db = Some (?g i)
           \<and> find (\<lambda>c. linkPrecedence c = Primary) (?g i) = Some (row_of db i)"
    if "i \<in> set ids" for i
  proof -
    from that ids inv have p: "row_of db i \<in> set (rows db)" "id_c (row_of db i) = i"
      "linkPrecedence (row_of db i) = Primary"
      by (auto dest: primary_row_of)
    from materialize_inv [OF inv p(1) p(3)] materialize_find_primary [OF inv p(1) p(3)] p(2)
    show ?thesis by simp
  qed
  then have "those (map (\<lambda>i. getLinkedContacts i db) ids) = Some (map ?g ids)"
    by (intro those_map_Some) simp
  moreover have "map (find (\<lambda>c. linkPrecedence c = Primary)) (map ?g ids)
      = map Some (map (row_of db) ids)"
    using g by simp
  then have "allPrimaries (map ?g ids) = map Some (sort_key created_ms (map (row_of db) ids))"
    by (simp only: allPrimaries_def js_sort_defined sort_cmp_createdAt)
  ultimately show ?thesis by blast
qed

lemma touched_props:
  assumes inv: "store_inv db" and ids: "\<forall>i\<in>set ids. is_primary_id db i" and d: "distinct ids"
  shows "set (sort_key created_ms (map (row_of db) ids)) \<subseteq> set (rows db)"
    and "\<forall>p\<in>set (sort_key created_ms (map (row_of db) ids)). linkPrecedence p = Primary"
    and "distinct (map id_c (sort_key created_ms (map (row_of db) ids)))"
    and "id_c ` set (sort_key created_ms (map (row_of db) ids)) = set ids"
proof -
  from inv ids have m: "map id_c (map (row_of db) ids) = ids"
    by (auto intro!: map_idI dest: primary_row_of)
  from inv ids show "set (sort_key created_ms (map (row_of db) ids)) \<subseteq> set (rows db)"
    by (auto dest: primary_row_of)
  from inv ids show "\<forall>p\<in>set (sort_key created_ms (map (row_of db) ids)). linkPrecedence p = Primary"
    by (auto dest: primary_row_of)
  have "mset (map id_c (sort_key created_ms (map (row_of db) ids))) = mset (map id_c (map (row_of db) ids))"
    by (simp only: mset_map mset_sort)
  with m have "mset (map id_c (sort_key created_ms (map (row_of db) ids))) = mset ids"
    by simp
  with d show "distinct (map id_c (sort_key created_ms (map (row_of db) ids)))"
    by (metis mset_eq_imp_distinct_iff)
  from m have "id_c ` set (map (row_of db) ids) = set ids"
    by (metis set_map)
  then show "id_c ` set (sort_key created_ms (map (row_of db) ids)) = set ids" by simp
qed

lemma merge_row_fields [simp]:
  "id_c (merge_row now A s c) = id_c c"
  "deletedAt (merge_row now A s c) = deletedAt c"
  "createdAt (merge_row now A s c) = createdAt c"
  "email (merge_row now A s c) = email c"
  "phoneNumber (merge_row now A s c) = phoneNumber c"
  by (simp_all add: merge_row_def)

lemma merge_row_untouched:
  "id_c c \<notin> set A \<Longrightarrow> linkedId c \<notin> Some ` set A \<Longrightarrow> merge_row now A s c = c"
  by (simp add: merge_row_def)

lemma merged_nil: "merged now surv [] db = db"
proof -
  have "merge_row now [] (id_c surv) = (\<lambda>c. c)"
    by (simp add: fun_eq_iff merge_row_def)
  then show ?thesis by (simp add: merged_def)
qed

lemma merged_keeps_surviving:
  assumes "store_inv db" and "surv \<in> set (rows db)" and "linkPrecedence surv = Primary"
    and "id_c surv \<notin> id_c ` set others"
  shows "surv \<in> set (rows (merged now surv others db))"
proof -
  from assms(1-3) have "linkedId surv = None" by (simp add: inv_row(4))
  with assms(4) have "merge_row now (map id_c others) (id_c surv) surv = surv"
    by (simp add: merge_row_untouched)
  with assms(2) show ?thesis
    by (force simp: merged_def)
qed

lemma merged_inv:
  assumes inv: "store_inv db" and s: "surv \<in> set (rows db)" and sp: "linkPrecedence surv = Primary"
    and o: "id_c surv \<notin> id_c ` set others"
  shows "store_inv (merged now surv others db)"
proof -
  let ?f = "merge_row now (map id_c others) (id_c surv)"
  let ?db = "merged now surv others db"
  have rows: "rows ?db = map ?f (rows db)" and nxt: "next_id ?db = next_id db"
    by (simp_all add: merged_def)
  have surv': "surv \<in> set (rows ?db)"
    using inv s sp o by (rule merged_keeps_surviving)
  have ids: "map id_c (rows ?db) = map id_c (rows db)"
    by (simp add: rows)
  have link: "case linkPrecedence (?f c) of
            Primary \<Rightarrow> linkedId (?f c) = None
          | Secondary \<Rightarrow>
              (\<exists>p\<in>set (rows ?db). linkPrecedence p = Primary \<and> linkedId (?f c) = Some (id_c p))"
    if c: "c \<in> set (rows db)" for c
  proof (cases "id_c c \<in> set (map id_c others)")
    case True
    then have "linkPrecedence (?f c) = Secondary" "linkedId (?f c) = Some (id_c surv)"
      by (simp_all add: merge_row_def)
    with surv' sp show ?thesis by auto
  next
    case out: False
    show ?thesis
    proof (cases "linkedId c \<in> Some ` set (map id_c others)")
      case True
      then obtain i where "linkedId c = Some i" by auto
      with inv c have "linkPrecedence c = Secondary" by (blast dest: inv_link_primary)
      with True out have "linkPrecedence (?f c) = Secondary" "linkedId (?f c) = Some (id_c surv)"
        by (simp_all add: merge_row_def)
      with surv' sp show ?thesis by auto
    next
      case False
      with out have same: "?f c = c" by (rule merge_row_untouched)
      show ?thesis
      proof (cases "linkPrecedence c")
        case Primary
        with inv c same show ?thesis by (simp add: inv_row(4))
      next
        case Secondary
        with inv c obtain p where p: "p \<in> set (rows db)" "linkPrecedence p = Primary"
          "linkedId c = Some (id_c p)"
          using inv_row(5) [of db c] by blast
        with False have "id_c p \<notin> set (map id_c others)" by auto
        moreover from inv p have "linkedId p = None" by (simp add: inv_row(4))
        ultimately have "?f p = p" by (simp add: merge_row_untouched)
        with p(1) have "p \<in> set (rows ?db)" by (force simp: rows)
        with p Secondary same show ?thesis by auto
      qed
    qed
  qed
  show ?thesis
    unfolding store_inv_def
  proof (intro conjI ballI)
    from inv show "0 < next_id ?db" by (simp add: nxt store_inv_def)
    from inv show "distinct (map id_c (rows ?db))" by (simp add: ids store_inv_def)
  next
    fix c' assume "c' \<in> set (rows ?db)"
    then obtain c where c: "c \<in> set (rows db)" and c': "c' = ?f c" by (auto simp: rows)
    from inv c show "0 < id_c c'" by (simp add: c' inv_row(1))
    from inv c show "id_c c' < next_id ?db" by (simp add: c' nxt inv_row(2))
    from inv c show "deletedAt c' = None" by (simp add: c' inv_row(3))
    from link [OF c] show "case linkPrecedence c' of
            Primary \<Rightarrow> linkedId c' = None
          | Secondary \<Rightarrow>
              (\<exists>p\<in>set (rows ?db). linkPrecedence p = Primary \<and> linkedId c' = Some (id_c p))"
      unfolding c' .
  qed
qed

lemma merged_fields [simp]:
  "next_id (merged now surv others db) = next_id db"
  "clock (merged now surv others db) = clock db"
  by (simp_all add: merged_def)

lemma inserted_fields [simp]:
  "rows (inserted c db) = rows db @ [c]"
  "next_id (inserted c db) = next_id db + 1"
  "clock (inserted c db) = clock db"
  by (simp_all add: inserted_def)

lemma inserted_inv:
  assumes inv: "store_inv db"
    and n: "id_c n = next_id db" "deletedAt n = None"
    and l: "(linkPrecedence n = Primary \<and> linkedId n = None)
            \<or> (linkPrecedence n = Secondary \<and>
                (\<exists>p\<in>set (rows db). linkPrecedence p = Primary \<and> linkedId n = Some (id_c p)))"
  shows "store_inv (inserted n db)"
proof -
  let ?db = "inserted n db"
  from inv have fresh: "next_id db \<notin> id_c ` set (rows db)"
    using inv_row(2) [of db] by force
  have all: "0 < id_c d \<and> id_c d < next_id ?db \<and> deletedAt d = None \<and>
       (case linkPrecedence d of
            Primary \<Rightarrow> linkedId d = None
          | Secondary \<Rightarrow>
              (\<exists>p\<in>set (rows ?db). linkPrecedence p = Primary \<and> linkedId d = Some (id_c p)))"
    if "d \<in> set (rows ?db)" for d
  proof -
    from that consider "d \<in> set (rows db)" | "d = n" by auto
    then show ?thesis
    proof cases
      case 1
      with inv have "0 < id_c d" "id_c d < next_id db" "deletedAt d = None"
        by (simp_all add: inv_row)
      moreover have "case linkPrecedence d of
          Primary \<Rightarrow> linkedId d = None
        | Secondary \<Rightarrow>
            (\<exists>p\<in>set (rows ?db). linkPrecedence p = Primary \<and> linkedId d = Some (id_c p))"
        using inv 1 inv_row(4,5) [of db d]
        by (cases "linkPrecedence d") auto
      ultimately show ?thesis by simp
    next
      case 2
      from inv have "0 < next_id db" by (simp add: store_inv_def)
      moreover have "case linkPrecedence n of
          Primary \<Rightarrow> linkedId n = None
        | Secondary \<Rightarrow>
            (\<exists>p\<in>set (rows ?db). linkPrecedence p = Primary \<and> linkedId n = Some (id_c p))"
        using l by (cases "linkPrecedence n") auto
      ultimately show ?thesis using n unfolding 2 by simp
    qed
  qed
  show ?thesis
    unfolding store_inv_def
  proof (intro conjI ballI)
    from inv show "0 < next_id ?db" by (simp add: store_inv_def)
    from inv fresh show "distinct (map id_c (rows ?db))" by (simp add: n store_inv_def)
  next
    fix d assume d: "d \<in> set (rows ?db)"
    from all [OF d] show "0 < id_c d" by blast
    from all [OF d] show "id_c d < next_id ?db" by blast
    from all [OF d] show "deletedAt d = None" by blast
    from all [OF d] show "case linkPrecedence d of
            Primary \<Rightarrow> linkedId d = None
          | Secondary \<Rightarrow>
              (\<exists>p\<in>set (rows ?db). linkPrecedence p = Primary \<and> linkedId d = Some (id_c p))"
      by blast
  qed
qed

text \<open>The columns and the INSERT.\<close>

lemma text_param_nul: "text_param v = (\<not> has_nul v)"
  by (simp add: text_param_def has_nul_def split: option.splits)

lemma varchar_eq:
  "\<not> has_nul v \<Longrightarrow> varchar n v = (if refused n v then Inl DataError else Inr (held n v))"
  by (auto simp: varchar_def refused_def held_def list_all_iff split: option.splits)

lemma fits_held: "fits n v \<Longrightarrow> \<not> refused n v \<and> held n v = v"
  by (cases v) (simp_all add: fits_def refused_def held_def has_nul_def)

lemma createContact_eq:
  "createContact now em ph lid prec db =
     (if refused 255 em \<or> refused 20 ph then Inl DataError
      else Inr (\<lparr>id_c = next_id db, phoneNumber = held 20 ph, email = held 255 em,
                 linkedId = lid, linkPrecedence = prec, createdAt = now, updatedAt = now,
                 deletedAt = None\<rparr>,
                inserted \<lparr>id_c = next_id db, phoneNumber = held 20 ph, email = held 255 em,
                 linkedId = lid, linkPrecedence = prec, createdAt = now, updatedAt = now,
                 deletedAt = None\<rparr> db))"
proof (cases "has_nul em \<or> has_nul ph")
  case True
  then show ?thesis by (auto simp: createContact_def text_param_nul refused_def)
next
  case False
  then show ?thesis
    by (simp add: createContact_def text_param_nul varchar_eq Let_def inserted_def)
qed

lemma new_secondary_create:
  "createContact now (or_null (email_r request)) (or_null (phoneNumber_r request))
     (Some pid) Secondary db
     = (if rejected request then Inl DataError
        else Inr (held_secondary now request pid db, inserted (held_secondary now request pid db) db))"
  by (simp add: createContact_eq or_null_given rejected_def held_secondary_def new_secondary_def)

lemma held_secondary_fields [simp]:
  "id_c (held_secondary now request pid db) = next_id db"
  "linkedId (held_secondary now request pid db) = Some pid"
  "linkPrecedence (held_secondary now request pid db) = Secondary"
  "createdAt (held_secondary now request pid db) = now"
  "deletedAt (held_secondary now request pid db) = None"
  by (simp_all add: held_secondary_def new_secondary_def)

lemma fits_not_rejected: "fits_columns request \<Longrightarrow> \<not> rejected request"
  by (simp add: fits_columns_def rejected_def fits_held)

lemma held_secondary_fits:
  "fits_columns request \<Longrightarrow>
     held_secondary now request pid db = new_secondary now request pid db"
  by (simp add: fits_columns_def held_secondary_def new_secondary_def fits_held)

lemma new_rows_eq:
  "new_rows request cluster pid db =
     (if introduces_new request cluster \<and> \<not> rejected request
      then [held_secondary (clock db) request pid db] else [])"
  by (auto simp: new_rows_def held_secondary_fits dest: fits_not_rejected)

lemma materialize_cluster_rows:
  assumes "store_inv db" and "p \<in> set (rows db)" and "linkPrecedence p = Primary"
  shows "getLinkedContacts (id_c p) db = Some (sort_key order_key (cluster_rows p db))"
  using materialize_inv [OF assms] by (simp add: cluster_rows_def)

lemma touched_facts:
  assumes inv: "store_inv db" and sub: "set existing \<subseteq> set (rows db)"
  shows "set (touched db existing) \<subseteq> set (rows db)"
    and "\<forall>p\<in>set (touched db existing). linkPrecedence p = Primary"
    and "distinct (map id_c (touched db existing))"
    and "id_c ` set (touched db existing) = set (uniquePrimaryIds existing)"
    and "length (touched db existing) = length (uniquePrimaryIds existing)"
proof -
  from inv sub have ids: "\<forall>i\<in>set (uniquePrimaryIds existing). is_primary_id db i"
    by (rule touched_ids_primary)
  note p = touched_props [OF inv ids uniquePrimaryIds_distinct]
  from p(1) show "set (touched db existing) \<subseteq> set (rows db)"
    unfolding touched_def .
  from p(2) show "\<forall>p\<in>set (touched db existing). linkPrecedence p = Primary"
    unfolding touched_def .
  from p(3) show "distinct (map id_c (touched db existing))"
    unfolding touched_def .
  from p(4) show "id_c ` set (touched db existing) = set (uniquePrimaryIds existing)"
    unfolding touched_def .
  show "length (touched db existing) = length (uniquePrimaryIds existing)"
    by (simp add: touched_def)
qed

lemma touched_cons:
  assumes inv: "store_inv db" and sub: "set existing \<subseteq> set (rows db)"
    and t: "touched db existing = surv # others"
  shows "surv \<in> set (rows db)" and "linkPrecedence surv = Primary"
    and "id_c surv \<notin> id_c ` set others"
    and "set others \<subseteq> set (rows db)" and "\<forall>p\<in>set others. linkPrecedence p = Primary"
    and "length (uniquePrimaryIds existing) = Suc (length others)"
  using touched_facts [OF inv sub] unfolding t by auto

lemma touched_nonempty:
  assumes inv: "store_inv db" and sub: "set existing \<subseteq> set (rows db)" and ne: "existing \<noteq> []"
  shows "\<exists>surv others. touched db existing = surv # others"
proof -
  from inv sub ne have "uniquePrimaryIds existing \<noteq> []" by (rule touched_ids_nonempty)
  with touched_facts(5) [OF inv sub] have "touched db existing \<noteq> []"
    by (metis length_0_conv)
  then show ?thesis by (cases "touched db existing") auto
qed

lemma identify_inv_shape:
  assumes inv: "store_inv db"
    and f: "findContactsByEmailOrPhone tie (email_r request) (phoneNumber_r request) db
              = Inr existing"
    and ne: "existing \<noteq> []"
    and t: "touched db existing = surv # others"
  shows "identify tie request db =
           Some (extend_cluster (clock db) request (id_c surv)
                   (sort_key order_key (cluster_rows surv (merged (clock db) surv others db)))
                   (merged (clock db) surv others db))"
proof -
  let ?now = "clock db"
  let ?ids = "uniquePrimaryIds existing"
  from f have sub: "set existing \<subseteq> set (rows db)" by (rule findContacts_subset)
  from inv sub have ids: "\<forall>i\<in>set ?ids. is_primary_id db i" by (rule touched_ids_primary)
  note c = touched_cons [OF inv sub t]
  note s = c(1) and sp = c(2) and o = c(3) and len = c(6)
  have inv': "store_inv (merged ?now surv others db)"
    using inv s sp o by (rule merged_inv)
  have s': "surv \<in> set (rows (merged ?now surv others db))"
    using inv s sp o by (rule merged_keeps_surviving)
  have m: "getLinkedContacts (id_c surv) (merged ?now surv others db)
        = Some (sort_key order_key (cluster_rows surv (merged ?now surv others db)))"
    using inv' s' sp by (rule materialize_cluster_rows)
  show ?thesis
  proof (cases "others = []")
    case True
    with len obtain i where i: "?ids = [i]"
      by (cases ?ids) auto
    with t have "surv = row_of db i" by (simp add: touched_def)
    moreover from i ids inv have "id_c (row_of db i) = i" by (auto dest: primary_row_of)
    ultimately have "hd ?ids = id_c surv" using i by simp
    with f ne i m True show ?thesis
      by (simp add: identify_def merged_nil)
  next
    case False
    with len have l2: "\<not> length ?ids = 1" "length ?ids > 1" by auto
    from allPrimaries_inv [OF inv ids] obtain groups
      where g: "those (map (\<lambda>i. getLinkedContacts i db) ?ids) = Some groups"
        and a: "allPrimaries groups = map Some (surv # others)"
      using t by (auto simp: touched_def)
    have d: "demote_all ?now (Some surv) (map Some others) db
              = (None, merged ?now surv others db)"
      using o by (rule demote_all_rows)
    have "merge_primaries ?now request ?ids db =
           Some (extend_cluster ?now request (id_c surv)
                   (sort_key order_key (cluster_rows surv (merged ?now surv others db)))
                   (merged ?now surv others db))"
      by (simp add: merge_primaries_def g a d m drop_Suc)
    with f ne l2 show ?thesis
      by (simp add: identify_def)
  qed
qed

lemma hasNew_iff: "hasNew v (map f cluster) = (present v \<and> v \<notin> f ` set cluster)"
  by (auto simp: hasNew_def truthy_present)

lemma extend_cluster_eq:
  "extend_cluster now request pid cluster db =
     (if introduces_new request cluster
      then (if rejected request then (Inl DataError, db)
            else (buildConsolidatedContact (cluster @ [held_secondary now request pid db]),
                  inserted (held_secondary now request pid db) db))
      else (buildConsolidatedContact cluster, db))"
  by (simp add: extend_cluster_def hasNew_iff introduces_new_def new_secondary_create)

lemma build_ok:
  assumes "p \<in> set cs" and "linkPrecedence p = Primary"
  shows "\<exists>v. buildConsolidatedContact cs = Inr v"
proof -
  from assms have "filter (\<lambda>c. linkPrecedence c = Primary) cs \<noteq> []"
    by (auto simp: filter_empty_conv)
  then have "sort_key created_ms (filter (\<lambda>c. linkPrecedence c = Primary) cs) \<noteq> []"
    by (metis length_0_conv length_sort)
  then show ?thesis
    by (cases "sort_key created_ms (filter (\<lambda>c. linkPrecedence c = Primary) cs)")
       (simp_all add: build_general Let_def)
qed

lemma extend_inv:
  assumes inv: "store_inv db" and s: "surv \<in> set (rows db)" and sp: "linkPrecedence surv = Primary"
    and c: "surv \<in> set cluster"
  shows "\<exists>r db'. extend_cluster now request (id_c surv) cluster db = (r, db') \<and> store_inv db'
           \<and> ((\<exists>v. r = Inr v) \<or> (r = Inl DataError \<and> rejected request \<and> db' = db))"
proof (cases "introduces_new request cluster \<and> \<not> rejected request")
  case True
  let ?n = "held_secondary now request (id_c surv) db"
  from c sp obtain v
    where "buildConsolidatedContact (cluster @ [?n]) = Inr v"
    using build_ok [of surv "cluster @ [?n]"] by auto
  moreover have "store_inv (inserted ?n db)"
    using inv s sp by (intro inserted_inv) auto
  ultimately show ?thesis
    using True by (simp add: extend_cluster_eq)
next
  case False
  from c sp obtain v where "buildConsolidatedContact cluster = Inr v"
    using build_ok by blast
  with False inv show ?thesis by (auto simp: extend_cluster_eq)
qed

lemma find_fails:
  assumes "findContactsByEmailOrPhone tie (email_r request) (phoneNumber_r request) db = Inl e"
  shows "(e = QueryError \<and> \<not> present (email_r request) \<and> \<not> present (phoneNumber_r request))
      \<or> (e = DataError \<and> rejected request
          \<and> (has_nul (given_value (email_r request))
               \<or> has_nul (given_value (phoneNumber_r request))))"
  using assms
  by (auto simp: findContactsByEmailOrPhone_def truthy_present text_param_nul rejected_def
        refused_def given_value_def split: if_splits)

lemma identify_inv_cases:
  assumes inv: "store_inv db"
  shows "(\<exists>v db'. identify tie request db = Some (Inr v, db') \<and> store_inv db')
         \<or> (identify tie request db = Some (Inl QueryError, db)
             \<and> \<not> present (email_r request) \<and> \<not> present (phoneNumber_r request))
         \<or> (\<exists>db'. identify tie request db = Some (Inl DataError, db') \<and> store_inv db'
             \<and> rejected request)"
proof (cases "findContactsByEmailOrPhone tie (email_r request) (phoneNumber_r request) db")
  case (Inl e)
  from find_fails [OF Inl]
  have "(e = QueryError \<and> \<not> present (email_r request) \<and> \<not> present (phoneNumber_r request))
      \<or> (e = DataError \<and> rejected request)"
    by blast
  with Inl inv show ?thesis by (auto simp: identify_def)
next
  case (Inr existing)
  show ?thesis
  proof (cases "existing = []")
    case True
    let ?e = "or_null (email_r request)" and ?p = "or_null (phoneNumber_r request)"
    let ?n = "\<lparr>id_c = next_id db, phoneNumber = held 20 ?p, email = held 255 ?e,
               linkedId = None, linkPrecedence = Primary, createdAt = clock db,
               updatedAt = clock db, deletedAt = None\<rparr>"
    show ?thesis
    proof (cases "refused 255 ?e \<or> refused 20 ?p")
      case long: True
      then have "rejected request" by (simp add: rejected_def or_null_given)
      with Inr True long inv show ?thesis
        by (simp add: identify_def createContact_eq)
    next
      case False
      obtain v where "buildConsolidatedContact [?n] = Inr v"
        using build_ok [of ?n "[?n]"] by auto
      moreover from inv have "store_inv (inserted ?n db)" by (intro inserted_inv) auto
      ultimately show ?thesis
        using Inr True False by (simp add: identify_def createContact_eq)
    qed
  next
    case False
    from Inr have sub: "set existing \<subseteq> set (rows db)" by (rule findContacts_subset)
    from touched_nonempty [OF inv sub False] obtain surv others
      where t: "touched db existing = surv # others" by blast
    note c = touched_cons [OF inv sub t]
    let ?db1 = "merged (clock db) surv others db"
    have inv': "store_inv ?db1"
      using inv c(1,2,3) by (rule merged_inv)
    have s': "surv \<in> set (rows ?db1)"
      using inv c(1,2,3) by (rule merged_keeps_surviving)
    have "surv \<in> set (cluster_rows surv ?db1)"
      by (simp add: cluster_rows_def)
    then have "surv \<in> set (sort_key order_key (cluster_rows surv ?db1))"
      by (simp only: set_sort)
    from extend_inv [OF inv' s' c(2) this, of "clock db" request]
      identify_inv_shape [OF inv Inr False t]
    show ?thesis by auto
  qed
qed

subsection \<open>Owning primaries and clusters\<close>

lemma owning_ids_set: "set (owning_ids cs) = {i. \<exists>c\<in>set cs. owner c = Some i}"
  by (force simp: owning_ids_def List.map_filter_def image_iff)

lemma owning_ids_distinct: "distinct (owning_ids cs)"
  by (simp add: owning_ids_def)

lemma owning_ids_cong: "set cs = set ds \<Longrightarrow> set (owning_ids cs) = set (owning_ids ds)"
  by (simp add: owning_ids_set)

text \<open>
  On a store that satisfies the invariants the ids that the code collects are the
  owning primary ids of the candidates.
\<close>

lemma unique_owning:
  assumes inv: "store_inv db" and sub: "set existing \<subseteq> set (rows db)"
  shows "set (uniquePrimaryIds existing) = set (owning_ids existing)"
proof -
  have sec: "truthy_num (linkedId c) \<and> owner c = Some (the (linkedId c))"
    if c: "c \<in> set existing" and s: "linkPrecedence c = Secondary" for c
  proof -
    from c sub have r: "c \<in> set (rows db)" by blast
    with inv s obtain p where p: "p \<in> set (rows db)" "linkedId c = Some (id_c p)"
      using inv_row(5) [of db c] by blast
    with inv have "0 < id_c p" using inv_row(1) [of db p] by blast
    with p s show ?thesis by (simp add: truthy_num_def owner_def)
  qed
  have prim: "owner c = Some (id_c c)" if "linkPrecedence c = Primary" for c
    using that by (simp add: owner_def)
  show ?thesis
  proof (intro set_eqI iffI)
    fix i assume "i \<in> set (uniquePrimaryIds existing)"
    then consider c where "c \<in> set existing" "linkPrecedence c = Primary" "i = id_c c"
      | c where "c \<in> set existing" "linkPrecedence c = Secondary" "i = the (linkedId c)"
      by (auto simp: uniquePrimaryIds_set)
    then show "i \<in> set (owning_ids existing)"
    proof cases
      case 1
      with prim [of c] show ?thesis by (auto simp: owning_ids_set)
    next
      case 2
      with sec [of c] show ?thesis by (auto simp: owning_ids_set)
    qed
  next
    fix i assume "i \<in> set (owning_ids existing)"
    then obtain c where c: "c \<in> set existing" "owner c = Some i"
      by (auto simp: owning_ids_set)
    show "i \<in> set (uniquePrimaryIds existing)"
    proof (cases "linkPrecedence c")
      case Primary
      with c prim [of c] show ?thesis by (force simp: uniquePrimaryIds_set)
    next
      case Secondary
      with c sec [of c] show ?thesis by (force simp: uniquePrimaryIds_set)
    qed
  qed
qed

lemma merge_row_cong: "set A = set B \<Longrightarrow> merge_row now A s = merge_row now B s"
  by (simp add: merge_row_def fun_eq_iff)

lemma members_cong: "set A = set B \<Longrightarrow> members A db = members B db"
  by (simp add: members_def)

lemma members_one: "members [i] db = filter (\<lambda>c. owner c = Some i) (rows db)"
  by (simp add: members_def)

text \<open>The touched primaries, as the code sorts them, in the terms of the specification.\<close>

lemma touched_spec:
  assumes inv: "store_inv db" and sub: "set existing \<subseteq> set (rows db)"
    and t: "touched db existing = surv # others"
  shows "earliest db (owning_ids existing) surv"
    and "set (map id_c others) = set (removeAll (id_c surv) (owning_ids existing))"
    and "length (owning_ids existing) = Suc (length others)"
    and "set (map id_c (surv # others)) = set (owning_ids existing)"
proof -
  note c = touched_cons [OF inv sub t]
  have ids: "id_c ` set (surv # others) = set (owning_ids existing)"
    using touched_facts(4) [OF inv sub] unique_owning [OF inv sub] by (simp only: t)
  then show all: "set (map id_c (surv # others)) = set (owning_ids existing)" by simp
  have srt: "sorted (map created_ms (surv # others))"
    using sorted_sort_key [of created_ms "map (row_of db) (uniquePrimaryIds existing)"]
    by (simp only: t [symmetric] touched_def)
  have "created_ms surv \<le> created_ms q"
    if q: "q \<in> set (rows db)" and i: "id_c q \<in> set (owning_ids existing)" for q
  proof -
    from i have "id_c q \<in> id_c ` set (surv # others)" by (simp only: ids)
    then obtain r where r: "r \<in> set (surv # others)" "id_c r = id_c q" by (metis imageE)
    with c(1,4) have "r \<in> set (rows db)" by auto
    with inv q r(2) have "r = q" by (blast intro: inv_id_unique)
    with r(1) srt show ?thesis by auto
  qed
  with c(1,2) ids show "earliest db (owning_ids existing) surv"
    by (auto simp: earliest_def)
  from ids c(3) have "id_c ` set others = set (owning_ids existing) - {id_c surv}"
    by (simp only: list.set image_insert) blast
  then show "set (map id_c others) = set (removeAll (id_c surv) (owning_ids existing))"
    by simp
  have "length (owning_ids existing) = card (set (owning_ids existing))"
    using owning_ids_distinct by (simp add: distinct_card)
  also have "\<dots> = card (set (uniquePrimaryIds existing))"
    by (simp only: unique_owning [OF inv sub])
  also have "\<dots> = length (uniquePrimaryIds existing)"
    using uniquePrimaryIds_distinct by (simp add: distinct_card)
  finally show "length (owning_ids existing) = Suc (length others)"
    by (simp only: c(6))
qed

lemma mset_filter_disjoint:
  "\<forall>x\<in>set xs. \<not> (P x \<and> Q x) \<Longrightarrow>
     mset (map g (filter P xs)) + mset (map g (filter Q xs))
       = mset (map g (filter (\<lambda>x. P x \<or> Q x) xs))"
  by (induction xs) auto

lemma owner_inv:
  assumes inv: "store_inv db" and p: "p \<in> set (rows db)" and pp: "linkPrecedence p = Primary"
    and c: "c \<in> set (rows db)"
  shows "(owner c = Some (id_c p)) = (id_c c = id_c p \<or> linkedId c = Some (id_c p))"
    and "\<not> (id_c c = id_c p \<and> linkedId c = Some (id_c p))"
proof -
  have eq: "c = p" if "id_c c = id_c p"
    using inv c p that by (rule inv_id_unique)
  from inv p pp have pl: "linkedId p = None" by (simp add: inv_row(4))
  show "(owner c = Some (id_c p)) = (id_c c = id_c p \<or> linkedId c = Some (id_c p))"
  proof (cases "linkPrecedence c")
    case Primary
    with inv c have "linkedId c = None" by (simp add: inv_row(4))
    with Primary show ?thesis by (simp add: owner_def)
  next
    case Secondary
    with eq pp have "id_c c \<noteq> id_c p" by auto
    with Secondary show ?thesis by (simp add: owner_def)
  qed
  from eq pl show "\<not> (id_c c = id_c p \<and> linkedId c = Some (id_c p))" by auto
qed

text \<open>The cluster that the code materializes holds the members of the primary.\<close>

lemma cluster_rows_members:
  assumes inv: "store_inv db" and p: "p \<in> set (rows db)" and pp: "linkPrecedence p = Primary"
  shows "mset (cluster_rows p db) = mset (members [id_c p] db)"
proof -
  from inv p have one: "filter (\<lambda>c. id_c c = id_c p) (rows db) = [p]"
    by (simp add: store_inv_def filter_distinct_key)
  have "filter (\<lambda>c. owner c = Some (id_c p)) (rows db)
          = filter (\<lambda>c. id_c c = id_c p \<or> linkedId c = Some (id_c p)) (rows db)"
    using owner_inv(1) [OF inv p pp] by (auto intro: filter_cong)
  moreover have "mset (map (\<lambda>c. c) (filter (\<lambda>c. id_c c = id_c p) (rows db)))
        + mset (map (\<lambda>c. c) (filter (\<lambda>c. linkedId c = Some (id_c p)) (rows db)))
      = mset (map (\<lambda>c. c) (filter (\<lambda>c. id_c c = id_c p \<or> linkedId c = Some (id_c p)) (rows db)))"
    using owner_inv(2) [OF inv p pp] by (intro mset_filter_disjoint) blast
  ultimately show ?thesis by (simp add: cluster_rows_def one members_one)
qed

lemma materialized_members:
  assumes inv: "store_inv db" and p: "p \<in> set (rows db)" and pp: "linkPrecedence p = Primary"
  shows "mset (sort_key order_key (cluster_rows p db)) = mset (members [id_c p] db)"
  using cluster_rows_members [OF assms] by simp

lemma sum_clusters:
  "distinct ids \<Longrightarrow>
     (\<Sum>i\<leftarrow>ids. mset (map g (filter (\<lambda>c. h c = Some i) xs)))
       = mset (map g (filter (\<lambda>c. h c \<in> Some ` set ids) xs))"
proof (induction ids)
  case Nil
  then show ?case by simp
next
  case (Cons i ids)
  from Cons.prems have d: "distinct ids" and n: "i \<notin> set ids" by simp_all
  from n have "\<forall>c\<in>set xs. \<not> (h c = Some i \<and> h c \<in> Some ` set ids)" by auto
  then have "mset (map g (filter (\<lambda>c. h c = Some i) xs))
        + mset (map g (filter (\<lambda>c. h c \<in> Some ` set ids) xs))
      = mset (map g (filter (\<lambda>c. h c = Some i \<or> h c \<in> Some ` set ids) xs))"
    by (rule mset_filter_disjoint)
  moreover have "(\<lambda>c. h c = Some i \<or> h c \<in> Some ` set ids) = (\<lambda>c. h c \<in> Some ` set (i # ids))"
    by (rule ext) auto
  moreover have "(\<Sum>j\<leftarrow>i # ids. mset (map g (filter (\<lambda>c. h c = Some j) xs)))
      = mset (map g (filter (\<lambda>c. h c = Some i) xs))
        + (\<Sum>j\<leftarrow>ids. mset (map g (filter (\<lambda>c. h c = Some j) xs)))"
    by (simp only: list.map sum_list.Cons)
  ultimately show ?case
    by (simp only: Cons.IH [OF d])
qed

lemma sum_members:
  "distinct ids \<Longrightarrow>
     (\<Sum>i\<leftarrow>ids. mset (map id_c (members [i] db))) = mset (map id_c (members ids db))"
proof -
  assume d: "distinct ids"
  have "(\<Sum>i\<leftarrow>ids. mset (map id_c (members [i] db)))
      = (\<Sum>i\<leftarrow>ids. mset (map id_c (filter (\<lambda>c. owner c = Some i) (rows db))))"
    by (simp only: members_one)
  also have "\<dots> = mset (map id_c (filter (\<lambda>c. owner c \<in> Some ` set ids) (rows db)))"
    using d by (rule sum_clusters)
  finally show ?thesis by (simp only: members_def)
qed

lemma owner_merged:
  assumes inv: "store_inv db" and s: "surv \<in> set (rows db)" and sp: "linkPrecedence surv = Primary"
    and o: "set others \<subseteq> set (rows db)" and op: "\<forall>p\<in>set others. linkPrecedence p = Primary"
    and c: "c \<in> set (rows db)"
  shows "(owner (merge_row now (map id_c others) (id_c surv) c) = Some (id_c surv))
           = (owner c \<in> Some ` id_c ` set (surv # others))"
proof (cases "id_c c \<in> set (map id_c others)")
  case True
  then obtain a where a: "a \<in> set others" "id_c a = id_c c" by auto
  with o inv c have "a = c" by (blast intro: inv_id_unique)
  with a op have "owner c = Some (id_c c)" by (simp add: owner_def)
  with True show ?thesis by (auto simp: merge_row_def owner_def)
next
  case out: False
  show ?thesis
  proof (cases "linkedId c \<in> Some ` set (map id_c others)")
    case True
    then obtain i where "linkedId c = Some i" by auto
    with inv c have "linkPrecedence c = Secondary" by (blast dest: inv_link_primary)
    with True out show ?thesis by (auto simp: merge_row_def owner_def)
  next
    case False
    with out have same: "merge_row now (map id_c others) (id_c surv) c = c"
      by (rule merge_row_untouched)
    have "owner c \<notin> Some ` id_c ` set others"
    proof (cases "linkPrecedence c")
      case Primary
      with out show ?thesis by (auto simp: owner_def)
    next
      case Secondary
      with False show ?thesis by (auto simp: owner_def)
    qed
    then show ?thesis by (auto simp: same)
  qed
qed

text \<open>After the merge the members of the surviving primary are those of the merged clusters.\<close>

lemma members_after_merge:
  assumes inv: "store_inv db" and s: "surv \<in> set (rows db)" and sp: "linkPrecedence surv = Primary"
    and o: "set others \<subseteq> set (rows db)" and op: "\<forall>p\<in>set others. linkPrecedence p = Primary"
  shows "filter (\<lambda>c. owner c = Some (id_c surv))
           (map (merge_row now (map id_c others) (id_c surv)) (rows db))
           = map (merge_row now (map id_c others) (id_c surv))
               (members (map id_c (surv # others)) db)"
proof -
  let ?f = "merge_row now (map id_c others) (id_c surv)"
  have "filter (\<lambda>c. owner c = Some (id_c surv)) (map ?f (rows db))
          = map ?f (filter (\<lambda>c. owner (?f c) = Some (id_c surv)) (rows db))"
    by (simp add: filter_map comp_def)
  also have "filter (\<lambda>c. owner (?f c) = Some (id_c surv)) (rows db)
          = filter (\<lambda>c. owner c \<in> Some ` id_c ` set (surv # others)) (rows db)"
    using owner_merged [OF inv s sp o op] by (auto intro: filter_cong)
  finally show ?thesis by (simp add: members_def)
qed

lemma introduces_new_cong:
  "email ` set A = email ` set B \<Longrightarrow> phoneNumber ` set A = phoneNumber ` set B \<Longrightarrow>
     introduces_new request A = introduces_new request B"
  by (simp add: introduces_new_def)

lemma new_rows_cong:
  "introduces_new request A = introduces_new request B \<Longrightarrow>
     new_rows request A pid db = new_rows request B pid db"
  by (simp add: new_rows_def)

lemma cluster_primary_only:
  assumes inv: "store_inv db" and p: "p \<in> set (rows db)" and prim: "linkPrecedence p = Primary"
  shows "filter (\<lambda>c. linkPrecedence c = Primary) (sort_key order_key (cluster_rows p db)) = [p]"
proof -
  have "filter (\<lambda>c. linkPrecedence c = Primary) (filter (\<lambda>c. linkedId c = Some (id_c p)) (rows db)) = []"
    using inv by (auto simp: filter_empty_conv dest: inv_link_primary)
  with prim have "filter (\<lambda>c. linkPrecedence c = Primary) (cluster_rows p db) = [p]"
    by (simp add: cluster_rows_def)
  then show ?thesis
    by (simp only: filter_sort) simp
qed

lemma build_primary:
  assumes "filter (\<lambda>c. linkPrecedence c = Primary) cs = [p]"
  shows "\<exists>v. buildConsolidatedContact cs = Inr v \<and> primaryContatctId v = id_c p
           \<and> set (secondaryContactIds v) = id_c ` {c \<in> set cs. linkPrecedence c = Secondary}"
  by (auto simp: build_general assms Let_def)

text \<open>
  What identify does on a store that satisfies the invariants when there are
  candidates, with \<open>surv # others\<close> the touched primaries as the code sorts them.
\<close>

lemma merge_outcome:
  assumes inv: "store_inv db"
    and f: "findContactsByEmailOrPhone tie (email_r request) (phoneNumber_r request) db
              = Inr existing"
    and ne: "existing \<noteq> []"
    and t: "touched db existing = surv # others"
  shows "\<exists>r. identify tie request db
             = Some (r, db\<lparr>rows := map (merge_row (clock db) (map id_c others) (id_c surv)) (rows db)
                   @ new_rows request (members (owning_ids existing) db) (id_c surv) db,
                 next_id := next_id db
                   + int (length (new_rows request (members (owning_ids existing) db)
                                    (id_c surv) db))\<rparr>)
         \<and> (if introduces_new request (members (owning_ids existing) db) \<and> rejected request
            then r = Inl DataError
            else \<exists>v. r = Inr v \<and> primaryContatctId v = id_c surv
                   \<and> set (map id_c (new_rows request (members (owning_ids existing) db)
                                      (id_c surv) db))
                       \<subseteq> set (secondaryContactIds v))
         \<and> (\<not> introduces_new request (members (owning_ids existing) db) \<longrightarrow>
              r = Inr (consolidated_view surv
                        (sort_key order_key
                           (cluster_rows surv (merged (clock db) surv others db)))))
         \<and> introduces_new request
              (sort_key order_key (cluster_rows surv (merged (clock db) surv others db)))
             = introduces_new request (members (owning_ids existing) db)"
proof -
  let ?now = "clock db"
  let ?f = "merge_row ?now (map id_c others) (id_c surv)"
  let ?db1 = "merged ?now surv others db"
  let ?cl = "sort_key order_key (cluster_rows surv ?db1)"
  let ?n = "held_secondary ?now request (id_c surv) db"
  let ?mem = "members (owning_ids existing) db"
  let ?extra = "new_rows request ?mem (id_c surv) db"
  let ?db' = "db\<lparr>rows := map ?f (rows db) @ ?extra,
                 next_id := next_id db + int (length ?extra)\<rparr>"
  from f have sub: "set existing \<subseteq> set (rows db)" by (rule findContacts_subset)
  note c = touched_cons [OF inv sub t]
  note sp = touched_spec [OF inv sub t]
  have inv1: "store_inv ?db1"
    using inv c(1,2,3) by (rule merged_inv)
  have s1: "surv \<in> set (rows ?db1)"
    using inv c(1,2,3) by (rule merged_keeps_surviving)
  have rows1: "rows ?db1 = map ?f (rows db)"
    by (simp add: merged_def)
  have "mset ?cl = mset (members [id_c surv] ?db1)"
    using inv1 s1 c(2) by (rule materialized_members)
  also have "members [id_c surv] ?db1 = map ?f (members (map id_c (surv # others)) db)"
    unfolding members_one rows1 using inv c(1,2,4,5) by (rule members_after_merge)
  also have "members (map id_c (surv # others)) db = ?mem"
    using sp(4) by (rule members_cong)
  finally have "set ?cl = ?f ` set ?mem"
    by (metis set_mset_mset set_map)
  then have "email ` set ?cl = email ` set ?mem" "phoneNumber ` set ?cl = phoneNumber ` set ?mem"
    by (simp_all add: image_image)
  then have new: "introduces_new request ?cl = introduces_new request ?mem"
    by (rule introduces_new_cong)
  have only: "filter (\<lambda>c. linkPrecedence c = Primary) ?cl = [surv]"
    using inv1 s1 c(2) by (rule cluster_primary_only)
  then have fnd: "find (\<lambda>c. linkPrecedence c = Primary) ?cl = Some surv"
    by (simp add: find_filter)
  have view: "buildConsolidatedContact ?cl = Inr (consolidated_view surv ?cl)"
    using sorted_sort_key fnd by (rule build_sorted)
  have vid: "primaryContatctId (consolidated_view surv ?cl) = id_c surv"
    by (simp add: consolidated_view_def Let_def)
  have n1: "held_secondary ?now request (id_c surv) ?db1 = ?n"
    by (simp add: held_secondary_def new_secondary_def)
  have run: "identify tie request db = Some (extend_cluster ?now request (id_c surv) ?cl ?db1)"
    using inv f ne t by (rule identify_inv_shape)
  show ?thesis
  proof (cases "introduces_new request ?mem")
    case False
    then have x: "?extra = []"
      by (simp add: new_rows_eq)
    have d: "?db1 = ?db'" by (simp add: x merged_def)
    from False new have e: "extend_cluster ?now request (id_c surv) ?cl ?db1
        = (Inr (consolidated_view surv ?cl), ?db1)"
      by (simp add: extend_cluster_eq view)
    have i: "identify tie request db = Some (Inr (consolidated_view surv ?cl), ?db')"
      unfolding run e by (simp only: d [symmetric])
    have "\<exists>v. Inr (consolidated_view surv ?cl) = (Inr v :: error + consolidatedContact)
            \<and> primaryContatctId v = id_c surv
            \<and> set (map id_c ?extra) \<subseteq> set (secondaryContactIds v)"
      using vid by (simp add: x)
    with i False new show ?thesis by auto
  next
    case True
    show ?thesis
    proof (cases "rejected request")
      case r: True
      with True have x: "?extra = []"
        by (simp add: new_rows_eq)
      have d: "?db1 = ?db'" by (simp add: x merged_def)
      from True r new have e: "extend_cluster ?now request (id_c surv) ?cl ?db1
          = (Inl DataError, ?db1)"
        by (simp add: extend_cluster_eq)
      have i: "identify tie request db = Some (Inl DataError, ?db')"
        unfolding run e by (simp only: d [symmetric])
      with True r new show ?thesis by auto
    next
      case nr: False
      with True have x: "?extra = [?n]"
        by (simp add: new_rows_eq)
      have d: "inserted ?n ?db1 = ?db'" by (simp add: x inserted_def merged_def)
      have "linkPrecedence ?n = Secondary" by simp
      with only have "filter (\<lambda>c. linkPrecedence c = Primary) (?cl @ [?n]) = [surv]"
        by simp
      from build_primary [OF this] obtain v
        where v: "buildConsolidatedContact (?cl @ [?n]) = Inr v" "primaryContatctId v = id_c surv"
          "set (secondaryContactIds v) = id_c ` {c \<in> set (?cl @ [?n]). linkPrecedence c = Secondary}"
        by blast
      have "?n \<in> {c \<in> set (?cl @ [?n]). linkPrecedence c = Secondary}" by simp
      then have "id_c ?n \<in> set (secondaryContactIds v)"
        unfolding v(3) by (rule imageI)
      then have inc: "set (map id_c ?extra) \<subseteq> set (secondaryContactIds v)"
        by (simp add: x)
      from True nr new have e: "extend_cluster ?now request (id_c surv) ?cl ?db1
          = (Inr v, inserted ?n ?db1)"
        by (simp add: extend_cluster_eq n1 v(1))
      have i: "identify tie request db = Some (Inr v, ?db')"
        unfolding run e by (simp only: d [symmetric])
      with v(2) inc True nr new show ?thesis by auto
    qed
  qed
qed

subsection \<open>A single owning primary\<close>

lemma find_set:
  assumes "findContactsByEmailOrPhone tie em ph db = Inr existing"
  shows "\<exists>existing'. findContactsByEmailOrPhone tie' em ph (db\<lparr>clock := t\<rparr>) = Inr existing'
           \<and> set existing' = set existing"
  using assms by (auto simp: findContactsByEmailOrPhone_def split: if_splits)

lemma store_inv_clock [simp]: "store_inv (db\<lparr>clock := t\<rparr>) = store_inv db"
  by (auto simp: store_inv_def split: precedence.splits)

lemma cluster_rows_clock [simp]: "cluster_rows p (db\<lparr>clock := t\<rparr>) = cluster_rows p db"
  by (simp add: cluster_rows_def)

lemma merge_row_none: "map (merge_row now [] s) xs = xs"
proof -
  have "merge_row now [] s = (\<lambda>c. c)"
    by (simp add: fun_eq_iff merge_row_def)
  then show ?thesis by simp
qed

text \<open>What identify does when the candidates have one owning primary.\<close>

lemma single_outcome:
  assumes inv: "store_inv db"
    and f: "findContactsByEmailOrPhone tie (email_r request) (phoneNumber_r request) db
              = Inr existing"
    and one: "set (owning_ids existing) = {pid}"
  shows "\<exists>p r. p \<in> set (rows db) \<and> id_c p = pid \<and> linkPrecedence p = Primary
      \<and> getLinkedContacts pid db = Some (sort_key order_key (cluster_rows p db))
      \<and> identify tie request db
          = Some (r, db\<lparr>rows := rows db
                  @ new_rows request (sort_key order_key (cluster_rows p db)) pid db,
                next_id := next_id db
                  + int (length (new_rows request (sort_key order_key (cluster_rows p db))
                                   pid db))\<rparr>)
      \<and> (if introduces_new request (sort_key order_key (cluster_rows p db)) \<and> rejected request
          then r = Inl DataError
          else \<exists>v. r = Inr v \<and> primaryContatctId v = pid
                 \<and> set (map id_c (new_rows request (sort_key order_key (cluster_rows p db))
                                    pid db))
                     \<subseteq> set (secondaryContactIds v))
      \<and> (\<not> introduces_new request (sort_key order_key (cluster_rows p db)) \<longrightarrow>
            r = Inr (consolidated_view p (sort_key order_key (cluster_rows p db))))"
proof -
  from one have ne: "existing \<noteq> []"
    by (auto simp: owning_ids_def List.map_filter_def)
  from f have sub: "set existing \<subseteq> set (rows db)" by (rule findContacts_subset)
  from touched_nonempty [OF inv sub ne] obtain surv others
    where t: "touched db existing = surv # others" by blast
  note c = touched_cons [OF inv sub t]
  note sp = touched_spec [OF inv sub t]
  have "length (owning_ids existing) = card (set (owning_ids existing))"
    using owning_ids_distinct by (simp add: distinct_card)
  with one sp(3) have o: "others = []" by simp
  from sp(1) one have pid: "id_c surv = pid" by (simp add: earliest_def)
  let ?cl = "sort_key order_key (cluster_rows surv db)"
  have m: "merged (clock db) surv others db = db"
    unfolding o by (rule merged_nil)
  from merge_outcome [OF inv f ne t] obtain r
    where r: "identify tie request db
             = Some (r, db\<lparr>rows := map (merge_row (clock db) (map id_c others) (id_c surv)) (rows db)
                   @ new_rows request (members (owning_ids existing) db) (id_c surv) db,
                 next_id := next_id db
                   + int (length (new_rows request (members (owning_ids existing) db)
                                    (id_c surv) db))\<rparr>)"
      and c1: "if introduces_new request (members (owning_ids existing) db) \<and> rejected request
            then r = Inl DataError
            else \<exists>v. r = Inr v \<and> primaryContatctId v = id_c surv
                   \<and> set (map id_c (new_rows request (members (owning_ids existing) db)
                                      (id_c surv) db))
                       \<subseteq> set (secondaryContactIds v)"
      and c2: "\<not> introduces_new request (members (owning_ids existing) db) \<longrightarrow>
              r = Inr (consolidated_view surv
                        (sort_key order_key
                           (cluster_rows surv (merged (clock db) surv others db))))"
      and new: "introduces_new request
              (sort_key order_key (cluster_rows surv (merged (clock db) surv others db)))
             = introduces_new request (members (owning_ids existing) db)"
    by blast
  from new have new': "introduces_new request (members (owning_ids existing) db)
      = introduces_new request ?cl"
    by (simp only: m)
  then have x: "new_rows request (members (owning_ids existing) db) pid db
      = new_rows request ?cl pid db"
    by (rule new_rows_cong)
  have g: "getLinkedContacts pid db = Some ?cl"
    using materialize_cluster_rows [OF inv c(1,2)] by (simp only: pid)
  from r have r': "identify tie request db
          = Some (r, db\<lparr>rows := rows db @ new_rows request ?cl pid db,
                next_id := next_id db + int (length (new_rows request ?cl pid db))\<rparr>)"
    by (simp only: o pid x list.map merge_row_none)
  from c1 have c1': "if introduces_new request ?cl \<and> rejected request
          then r = Inl DataError
          else \<exists>v. r = Inr v \<and> primaryContatctId v = pid
                 \<and> set (map id_c (new_rows request ?cl pid db)) \<subseteq> set (secondaryContactIds v)"
    by (simp only: pid x new')
  from c2 have c2': "\<not> introduces_new request ?cl \<longrightarrow> r = Inr (consolidated_view surv ?cl)"
    by (simp only: new' m)
  from c(1,2) pid g r' c1' c2' show ?thesis by blast
qed

text \<open>
  C3, as the specification states it, fails: the observation can introduce a new value
  and yet no contact is created. On the store of scenario C the request with the email of
  contact 6 and a new phone of 21 characters resolves to the one owning primary 5, the
  phone is absent from its cluster, and the INSERT of the new secondary is rejected by
  the column phone_number VARCHAR(20): identify throws and the store is unchanged.
\<close>

theorem long_value_rejected:
  "store_inv scenario_c_db
   \<and> findContactsByEmailOrPhone last_written (email_r long_phone_request)
       (phoneNumber_r long_phone_request) scenario_c_db = Inr (drop 2 (rows scenario_c_db))
   \<and> owning_ids (drop 2 (rows scenario_c_db)) = [5]
   \<and> getLinkedContacts 5 scenario_c_db = Some (drop 1 (rows scenario_c_db))
   \<and> introduces_new long_phone_request (drop 1 (rows scenario_c_db))
   \<and> identify last_written long_phone_request scenario_c_db
       = Some (Inl DataError, scenario_c_db)"
  by code_simp

text \<open>
  C3, amended. On a store that satisfies the invariants, when the candidates resolve to
  one owning primary, that primary is stored, and its cluster is materialized and holds
  its members. If the observation introduces an email or a phone absent from the
  cluster, and the given values fit the columns, identify inserts one contact, the
  secondary with exactly the given email and phone, linked to that primary, and returns
  a view of that primary that lists the new contact; if a given value is too long for
  its column, identify fails and the store is unchanged; a value that exceeds its column
  by spaces only is stored cut to the column. If the observation introduces nothing
  new, the store is unchanged and the view of the cluster is returned, whatever the
  time of the call and the order of the candidates, so that the repeated call returns
  the same view.
\<close>

theorem single_primary:
  assumes inv: "store_inv db"
    and f: "findContactsByEmailOrPhone tie (email_r request) (phoneNumber_r request) db
              = Inr existing"
    and one: "owning_ids existing = [primaryId]"
  shows "\<exists>p cluster r.
           p \<in> set (rows db) \<and> id_c p = primaryId \<and> linkPrecedence p = Primary
         \<and> getLinkedContacts primaryId db = Some cluster
         \<and> mset cluster = mset (members [primaryId] db)
         \<and> identify tie request db
             = Some (r, db\<lparr>rows := rows db @ new_rows request cluster primaryId db,
                          next_id := next_id db
                            + int (length (new_rows request cluster primaryId db))\<rparr>)
         \<and> (if introduces_new request cluster \<and> rejected request then r = Inl DataError
            else \<exists>v. r = Inr v \<and> primaryContatctId v = primaryId
                   \<and> set (map id_c (new_rows request cluster primaryId db))
                       \<subseteq> set (secondaryContactIds v))
         \<and> (\<not> introduces_new request cluster \<longrightarrow>
              (\<forall>tie' t. identify tie' request (db\<lparr>clock := t\<rparr>)
                 = Some (Inr (consolidated_view p cluster), db\<lparr>clock := t\<rparr>)))"
proof -
  from one have s: "set (owning_ids existing) = {primaryId}" by simp
  from single_outcome [OF inv f s] obtain p r
    where p: "p \<in> set (rows db)" "id_c p = primaryId" "linkPrecedence p = Primary"
      and g: "getLinkedContacts primaryId db = Some (sort_key order_key (cluster_rows p db))"
      and r: "identify tie request db
          = Some (r, db\<lparr>rows := rows db
                  @ new_rows request (sort_key order_key (cluster_rows p db)) primaryId db,
                next_id := next_id db
                  + int (length (new_rows request (sort_key order_key (cluster_rows p db))
                                   primaryId db))\<rparr>)"
      and c1: "if introduces_new request (sort_key order_key (cluster_rows p db))
                  \<and> rejected request
          then r = Inl DataError
          else \<exists>v. r = Inr v \<and> primaryContatctId v = primaryId
                 \<and> set (map id_c (new_rows request (sort_key order_key (cluster_rows p db))
                                    primaryId db))
                     \<subseteq> set (secondaryContactIds v)"
    by blast
  let ?cl = "sort_key order_key (cluster_rows p db)"
  have m: "mset ?cl = mset (members [primaryId] db)"
    using materialized_members [OF inv p(1,3)] by (simp only: p(2))
  have again: "identify tie' request (db\<lparr>clock := t\<rparr>)
                 = Some (Inr (consolidated_view p ?cl), db\<lparr>clock := t\<rparr>)"
    if old: "\<not> introduces_new request ?cl" for tie' t
  proof -
    let ?db = "db\<lparr>clock := t\<rparr>"
    from find_set [OF f, of tie' t] obtain existing'
      where f': "findContactsByEmailOrPhone tie' (email_r request) (phoneNumber_r request) ?db
                   = Inr existing'"
        and e: "set existing' = set existing"
      by blast
    from e s have s': "set (owning_ids existing') = {primaryId}"
      by (simp only: owning_ids_cong [OF e])
    have inv': "store_inv ?db" using inv by simp
    from single_outcome [OF inv' f' s'] obtain q r'
      where q: "q \<in> set (rows ?db)" "id_c q = primaryId"
        and r': "identify tie' request ?db
          = Some (r', ?db\<lparr>rows := rows ?db
                  @ new_rows request (sort_key order_key (cluster_rows q ?db)) primaryId ?db,
                next_id := next_id ?db
                  + int (length (new_rows request (sort_key order_key (cluster_rows q ?db))
                                   primaryId ?db))\<rparr>)"
        and c2: "\<not> introduces_new request (sort_key order_key (cluster_rows q ?db)) \<longrightarrow>
            r' = Inr (consolidated_view q (sort_key order_key (cluster_rows q ?db)))"
      by blast
    from q(1) have "q \<in> set (rows db)" by simp
    with inv p(1,2) q(2) have qp: "q = p" by (blast intro: inv_id_unique)
    from old have n: "new_rows request ?cl primaryId ?db = []"
      by (simp add: new_rows_def)
    from c2 old have "r' = Inr (consolidated_view p ?cl)"
      by (simp add: qp)
    with r' show ?thesis
      by (simp add: qp n)
  qed
  from p g m r c1 again show ?thesis by blast
qed

theorem single_primary_witness:
  "store_inv scenario_c_db
   \<and> findContactsByEmailOrPhone last_written (email_r scenario_d_request)
       (phoneNumber_r scenario_d_request) scenario_c_db = Inr (drop 1 (rows scenario_c_db))
   \<and> owning_ids (drop 1 (rows scenario_c_db)) = [5]
   \<and> getLinkedContacts 5 scenario_c_db = Some (drop 1 (rows scenario_c_db))
   \<and> \<not> introduces_new scenario_d_request (drop 1 (rows scenario_c_db))
   \<and> identify last_written scenario_d_request scenario_c_db
       = Some (Inr (consolidated_view (rows scenario_c_db ! 1) (drop 1 (rows scenario_c_db))),
               scenario_c_db)
   \<and> consolidated_view (rows scenario_c_db ! 1) (drop 1 (rows scenario_c_db))
       = \<lparr>primaryContatctId = 5, emails = [''c''], phoneNumbers = [''p''],
          secondaryContactIds = [6]\<rparr>
   \<and> new_rows new_phone_request (drop 1 (rows scenario_c_db)) 5 scenario_c_db
       = [new_secondary 40000 new_phone_request 5 scenario_c_db]
   \<and> identify last_written new_phone_request scenario_c_db
       = Some (Inr \<lparr>primaryContatctId = 5, emails = [''c''], phoneNumbers = [''p'', ''z''],
                      secondaryContactIds = [6, 7]\<rparr>,
               inserted (new_secondary 40000 new_phone_request 5 scenario_c_db) scenario_c_db)"
proof -
  have h1: "store_inv scenario_c_db" by code_simp
  have h2: "findContactsByEmailOrPhone last_written (email_r scenario_d_request)
      (phoneNumber_r scenario_d_request) scenario_c_db = Inr (drop 1 (rows scenario_c_db))"
    by code_simp
  have h3: "owning_ids (drop 1 (rows scenario_c_db)) = [5]" by code_simp
  have g: "getLinkedContacts 5 scenario_c_db = Some (drop 1 (rows scenario_c_db))" by code_simp
  have n: "\<not> introduces_new scenario_d_request (drop 1 (rows scenario_c_db))" by code_simp
  have v: "consolidated_view (rows scenario_c_db ! 1) (drop 1 (rows scenario_c_db))
       = \<lparr>primaryContatctId = 5, emails = [''c''], phoneNumbers = [''p''],
          secondaryContactIds = [6]\<rparr>"
    by code_simp
  have c: "scenario_c_db\<lparr>clock := 40000\<rparr> = scenario_c_db"
    by (simp add: scenario_c_db_def)
  have x: "new_rows new_phone_request (drop 1 (rows scenario_c_db)) 5 scenario_c_db
       = [new_secondary 40000 new_phone_request 5 scenario_c_db]"
    by code_simp
  have y: "identify last_written new_phone_request scenario_c_db
       = Some (Inr \<lparr>primaryContatctId = 5, emails = [''c''], phoneNumbers = [''p'', ''z''],
                      secondaryContactIds = [6, 7]\<rparr>,
               inserted (new_secondary 40000 new_phone_request 5 scenario_c_db) scenario_c_db)"
    by code_simp
  from single_primary [OF h1 h2 h3] obtain p cluster
    where p: "p \<in> set (rows scenario_c_db)" "id_c p = 5"
      and g': "getLinkedContacts 5 scenario_c_db = Some cluster"
      and a: "\<not> introduces_new scenario_d_request cluster \<longrightarrow>
              (\<forall>tie' t. identify tie' scenario_d_request (scenario_c_db\<lparr>clock := t\<rparr>)
                 = Some (Inr (consolidated_view p cluster), scenario_c_db\<lparr>clock := t\<rparr>))"
    by blast
  from g g' have cl: "cluster = drop 1 (rows scenario_c_db)" by simp
  from p have "p = rows scenario_c_db ! 1" by (auto simp: scenario_c_db_def)
  with a n cl have "identify last_written scenario_d_request (scenario_c_db\<lparr>clock := 40000\<rparr>)
       = Some (Inr (consolidated_view (rows scenario_c_db ! 1) (drop 1 (rows scenario_c_db))),
               scenario_c_db\<lparr>clock := 40000\<rparr>)"
    by blast
  then have "identify last_written scenario_d_request scenario_c_db
       = Some (Inr (consolidated_view (rows scenario_c_db ! 1) (drop 1 (rows scenario_c_db))),
               scenario_c_db)"
    by (simp only: c)
  with h1 h2 h3 g n v x y show ?thesis by blast
qed

subsection \<open>Invariants over histories\<close>

lemma inv_star: "store_inv db \<Longrightarrow> star_topology db"
  unfolding star_topology_def
  using inv_row(5) by blast

lemma run_inv: "store_inv db \<Longrightarrow> \<exists>db'. run calls db = Some db' \<and> store_inv db'"
proof (induction calls arbitrary: db)
  case Nil
  then show ?case by simp
next
  case (Cons call calls)
  obtain delay tie request where call: "call = (delay, tie, request)" by (metis prod_cases3)
  let ?db = "db\<lparr>clock := clock db + int delay\<rparr>"
  from Cons.prems have "store_inv ?db" by simp
  from identify_inv_cases [OF this, of tie request]
  obtain r db1 where "identify tie request ?db = Some (r, db1)" "store_inv db1"
    using Cons.prems by auto
  with Cons.IH [of db1] call show ?case by simp
qed

text \<open>
  C4. From a store that satisfies the invariants, every history of identify calls
  returns, and the store it leaves satisfies the invariants again; in particular every
  secondary contact is linked to a contact whose precedence is primary.
\<close>

theorem star_preserved:
  assumes "store_inv db"
  shows "\<exists>db'. run ((delay, tie, request) # calls) db = Some db' \<and> store_inv db'
           \<and> star_topology db'"
  using run_inv [OF assms, of "(delay, tie, request) # calls"] inv_star by blast

theorem star_preserved_witness:
  "store_inv scenario_c_db
   \<and> run [(0, last_written, scenario_c_request)] scenario_c_db = Some scenario_c_after
   \<and> star_topology scenario_c_after"
proof -
  have h: "store_inv scenario_c_db" by code_simp
  have r: "run [(0, last_written, scenario_c_request)] scenario_c_db = Some scenario_c_after"
    by code_simp
  from star_preserved [OF h, of 0 last_written scenario_c_request "[]"] r
  have "star_topology scenario_c_after" by auto
  with h r show ?thesis by blast
qed

subsection \<open>Failures and writes\<close>




subsection \<open>The oldest contact of a cluster\<close>

lemma no_link_to_next:
  assumes "store_inv db" and "c \<in> set (rows db)"
  shows "linkedId c \<noteq> Some (next_id db)"
proof
  assume "linkedId c = Some (next_id db)"
  with assms have "is_primary_id db (next_id db)" by (blast dest: inv_link_primary)
  then obtain p where "p \<in> set (rows db)" "id_c p = next_id db"
    by (auto simp: is_primary_id_def)
  with assms(1) inv_row(2) [of db p] show False by simp
qed

lemma inserted_oldest:
  assumes inv: "store_inv db" and old: "oldest_first db" and n: "id_c n = next_id db"
    and l: "linkedId n = None
            \<or> (\<exists>p\<in>set (rows db). linkedId n = Some (id_c p) \<and> created_ms p \<le> created_ms n)"
  shows "oldest_first (inserted n db)"
  unfolding oldest_first_def
proof (intro ballI impI)
  fix c p
  assume c: "c \<in> set (rows (inserted n db))"
    and p: "p \<in> set (rows (inserted n db))"
    and lk: "linkedId c = Some (id_c p)"
  show "created_ms p \<le> created_ms c"
  proof (cases "c = n")
    case True
    with l lk obtain q where q: "q \<in> set (rows db)" "id_c q = id_c p" "created_ms q \<le> created_ms n"
      by auto
    show ?thesis
    proof (cases "p = n")
      case True
      with q n inv inv_row(2) [of db q] show ?thesis by simp
    next
      case False
      with p have "p \<in> set (rows db)" by simp
      with inv q have "q = p" by (blast intro: inv_id_unique)
      with q True show ?thesis by simp
    qed
  next
    case False
    with c have c': "c \<in> set (rows db)" by simp
    show ?thesis
    proof (cases "p = n")
      case True
      with lk n have "linkedId c = Some (next_id db)" by simp
      with no_link_to_next [OF inv c'] show ?thesis by simp
    next
      case False
      with p have "p \<in> set (rows db)" by simp
      with old c' lk show ?thesis by (auto simp: oldest_first_def)
    qed
  qed
qed

lemma merged_oldest:
  assumes inv: "store_inv db" and old: "oldest_first db"
    and s: "surv \<in> set (rows db)"
    and o: "set others \<subseteq> set (rows db)"
    and le: "\<forall>p\<in>set others. created_ms surv \<le> created_ms p"
  shows "oldest_first (merged now surv others db)"
  unfolding oldest_first_def
proof (intro ballI impI)
  let ?f = "merge_row now (map id_c others) (id_c surv)"
  have ms: "created_ms (?f c) = created_ms c" for c
    by (simp add: created_ms_def)
  fix c1 p1
  assume "c1 \<in> set (rows (merged now surv others db))"
    and "p1 \<in> set (rows (merged now surv others db))"
    and lk: "linkedId c1 = Some (id_c p1)"
  then obtain c p where c: "c \<in> set (rows db)" "c1 = ?f c" and p: "p \<in> set (rows db)" "p1 = ?f p"
    by (auto simp: merged_def)
  have "created_ms p \<le> created_ms c"
  proof (cases "id_c c \<in> set (map id_c others)")
    case True
    then obtain a where a: "a \<in> set others" "id_c a = id_c c" by auto
    with o inv c(1) have "a = c" by (blast intro: inv_id_unique)
    with a le have "created_ms surv \<le> created_ms c" by blast
    moreover from True have "linkedId (?f c) = Some (id_c surv)" by (simp add: merge_row_def)
    with lk c(2) p(2) have "id_c p = id_c surv" by simp
    with inv p(1) s have "p = surv" by (blast intro: inv_id_unique)
    ultimately show ?thesis by simp
  next
    case out: False
    show ?thesis
    proof (cases "linkedId c \<in> Some ` set (map id_c others)")
      case True
      then obtain a where a: "a \<in> set others" "linkedId c = Some (id_c a)" by auto
      with o old c(1) have "created_ms a \<le> created_ms c" by (auto simp: oldest_first_def)
      moreover from a le have "created_ms surv \<le> created_ms a" by blast
      moreover from True out have "linkedId (?f c) = Some (id_c surv)" by (simp add: merge_row_def)
      with lk c(2) p(2) have "id_c p = id_c surv" by simp
      with inv p(1) s have "p = surv" by (blast intro: inv_id_unique)
      ultimately show ?thesis by simp
    next
      case False
      with out have "?f c = c" by (rule merge_row_untouched)
      with lk c(2) p(2) have "linkedId c = Some (id_c p)" by simp
      with old c(1) p(1) show ?thesis by (auto simp: oldest_first_def)
    qed
  qed
  with c(2) p(2) show "created_ms p1 \<le> created_ms c1" by (simp only: ms)
qed

lemma touched_oldest:
  assumes "touched db existing = surv # others"
  shows "\<forall>p\<in>set others. created_ms surv \<le> created_ms p"
proof -
  have "sorted (map created_ms (touched db existing))"
    unfolding touched_def by (rule sorted_sort_key)
  with assms show ?thesis by simp
qed

lemma merged_no_future: "no_future db \<Longrightarrow> no_future (merged now surv others db)"
  by (auto simp: no_future_def merged_def)

lemma inserted_no_future:
  "no_future db \<Longrightarrow> createdAt n \<le> clock db \<Longrightarrow> no_future (inserted n db)"
  by (auto simp: no_future_def)

lemma extend_oldest:
  assumes inv: "store_inv db" and old: "oldest_first db" and nf: "no_future db"
    and s: "surv \<in> set (rows db)"
    and e: "extend_cluster (clock db) request (id_c surv) cluster db = (r, db')"
  shows "oldest_first db' \<and> no_future db'"
proof (cases "introduces_new request cluster \<and> \<not> rejected request")
  case True
  let ?n = "held_secondary (clock db) request (id_c surv) db"
  from True e have db': "db' = inserted ?n db"
    by (simp add: extend_cluster_eq)
  from nf s have "createdAt surv \<le> clock db" by (simp add: no_future_def)
  then have "created_ms surv \<le> created_ms ?n"
    by (simp add: created_ms_def getTime_mono)
  with s have "linkedId ?n = None
      \<or> (\<exists>p\<in>set (rows db). linkedId ?n = Some (id_c p) \<and> created_ms p \<le> created_ms ?n)"
    by auto
  with inv old have "oldest_first (inserted ?n db)"
    by (intro inserted_oldest) simp_all
  moreover from nf have "no_future (inserted ?n db)"
    by (rule inserted_no_future) simp
  ultimately show ?thesis by (simp add: db')
next
  case False
  with e have "db' = db" by (auto simp: extend_cluster_eq split: if_splits)
  with old nf show ?thesis by simp
qed

lemma identify_oldest:
  assumes inv: "store_inv db" and old: "oldest_first db" and nf: "no_future db"
    and run: "identify tie request db = Some (r, db')"
  shows "oldest_first db' \<and> no_future db'"
proof (cases "findContactsByEmailOrPhone tie (email_r request) (phoneNumber_r request) db")
  case (Inl e)
  with run have "db' = db" by (simp add: identify_def)
  with old nf show ?thesis by simp
next
  case (Inr existing)
  show ?thesis
  proof (cases "existing = []")
    case True
    let ?e = "or_null (email_r request)" and ?p = "or_null (phoneNumber_r request)"
    let ?n = "\<lparr>id_c = next_id db, phoneNumber = held 20 ?p, email = held 255 ?e,
               linkedId = None, linkPrecedence = Primary, createdAt = clock db,
               updatedAt = clock db, deletedAt = None\<rparr>"
    show ?thesis
    proof (cases "refused 255 ?e \<or> refused 20 ?p")
      case long: True
      with Inr True run have "db' = db"
        by (simp add: identify_def createContact_eq)
      with old nf show ?thesis by simp
    next
      case False
      with Inr True run have db': "db' = inserted ?n db"
        by (simp add: identify_def createContact_eq)
      from inv old have "oldest_first (inserted ?n db)"
        by (intro inserted_oldest) simp_all
      moreover from nf have "no_future (inserted ?n db)"
        by (rule inserted_no_future) simp
      ultimately show ?thesis by (simp add: db')
    qed
  next
    case False
    from Inr have sub: "set existing \<subseteq> set (rows db)" by (rule findContacts_subset)
    from touched_nonempty [OF inv sub False] obtain surv others
      where t: "touched db existing = surv # others" by blast
    note c = touched_cons [OF inv sub t]
    let ?db1 = "merged (clock db) surv others db"
    have inv1: "store_inv ?db1"
      using inv c(1,2,3) by (rule merged_inv)
    have s1: "surv \<in> set (rows ?db1)"
      using inv c(1,2,3) by (rule merged_keeps_surviving)
    have old1: "oldest_first ?db1"
      using inv old c(1) c(4) touched_oldest [OF t] by (rule merged_oldest)
    have nf1: "no_future ?db1"
      using nf by (rule merged_no_future)
    from identify_inv_shape [OF inv Inr False t] run
    have "extend_cluster (clock ?db1) request (id_c surv)
            (sort_key order_key (cluster_rows surv ?db1)) ?db1 = (r, db')"
      by simp
    with inv1 old1 nf1 s1 show ?thesis by (rule extend_oldest)
  qed
qed

lemma run_oldest:
  assumes "store_inv db" and "oldest_first db" and "no_future db"
  shows "\<exists>db'. run calls db = Some db' \<and> store_inv db' \<and> oldest_first db' \<and> no_future db'"
  using assms
proof (induction calls arbitrary: db)
  case Nil
  then show ?case by simp
next
  case (Cons call calls)
  obtain delay tie request where call: "call = (delay, tie, request)" by (metis prod_cases3)
  let ?db = "db\<lparr>clock := clock db + int delay\<rparr>"
  from Cons.prems(1) have inv: "store_inv ?db" by simp
  from Cons.prems(2) have old: "oldest_first ?db" by (simp add: oldest_first_def)
  from Cons.prems(3) have nf: "no_future ?db" by (fastforce simp: no_future_def)
  from identify_inv_cases [OF inv, of tie request]
  obtain r db1 where r: "identify tie request ?db = Some (r, db1)" and inv1: "store_inv db1"
    using inv by auto
  from identify_oldest [OF inv old nf r]
  have old1: "oldest_first db1" and nf1: "no_future db1" by simp_all
  from Cons.IH [OF inv1 old1 nf1] r call show ?case by simp
qed

text \<open>
  C2, as the specification states it, fails: the primaries are compared by the
  milliseconds of createdAt alone. In the history \<open>tie_history\<close> from the empty store,
  contact 1 is created at 1100 microseconds and contact 2 at 1900, in the same
  millisecond, and the last call, whose candidates reach 2 first, makes contact 2 the
  primary of contact 1, which was created before it. It fails also from a store in
  which a contact carries a createdAt after the present time: the secondary that is
  added to its cluster is older than the primary.
\<close>

theorem later_primary_survives:
  "store_inv empty_db \<and> first_by_key empty_db
   \<and> run tie_history empty_db = Some tie_after
   \<and> \<not> first_by_key tie_after
   \<and> linkedId (row_of tie_after 1) = Some 2
   \<and> createdAt (row_of tie_after 1) < createdAt (row_of tie_after 2)
   \<and> store_inv future_db \<and> first_by_key future_db
   \<and> run [(0, last_written, future_request)] future_db = Some future_after
   \<and> \<not> oldest_first future_after"
  by code_simp

text \<open>
  C2, amended. From a store that satisfies the invariants, in which no member of a
  cluster was created in an earlier millisecond than its primary and no contact was
  created after the present time, every history of identify calls returns and leaves a
  store in which no member of a cluster was created in an earlier millisecond than its
  primary.
\<close>

theorem primary_is_oldest:
  assumes "store_inv db" and "oldest_first db" and "no_future db"
  shows "\<exists>db'. run calls db = Some db' \<and> oldest_first db'"
  using run_oldest [OF assms, of calls] by blast

theorem primary_is_oldest_witness:
  "store_inv empty_db \<and> oldest_first empty_db \<and> no_future empty_db
   \<and> run tie_history empty_db = Some tie_after
   \<and> oldest_first tie_after"
proof -
  have h1: "store_inv empty_db" by code_simp
  have h2: "oldest_first empty_db" by code_simp
  have h3: "no_future empty_db" by code_simp
  have r: "run tie_history empty_db = Some tie_after" by code_simp
  from primary_is_oldest [OF h1 h2 h3, of tie_history] r
  have "oldest_first tie_after" by auto
  with h1 h2 h3 r show ?thesis by blast
qed

subsection \<open>Merging clusters\<close>

text \<open>
  C1, as the specification states it, fails: of the two touched primaries 1 and 2 of
  \<open>tie_db\<close>, the first by (createdAt, id) is 1, created 800 microseconds before 2, and
  identify makes 2 the surviving primary: both were created in the same millisecond,
  and the candidate list reaches 2 first.
\<close>

theorem tie_survivor:
  "store_inv tie_db
   \<and> findContactsByEmailOrPhone last_written (email_r tie_request) (phoneNumber_r tie_request)
       tie_db = Inr (drop 1 (rows tie_db))
   \<and> owning_ids (drop 1 (rows tie_db)) = [2, 1]
   \<and> order_key (row_of tie_db 1) < order_key (row_of tie_db 2)
   \<and> identify last_written tie_request tie_db = Some (Inr tie_view, tie_after)
   \<and> primaryContatctId tie_view = 2"
  by code_simp

text \<open>
  C1, amended. On a store that satisfies the invariants, when the candidates have two
  or more owning primaries, identify returns, and there is a surviving primary, one of
  the owning primaries, such that no owning primary was created in an earlier
  millisecond. Every stored contact is rewritten by \<open>merge_row\<close>: the other owning
  primaries become secondaries of the surviving one, the contacts linked to one of them
  are linked to the surviving one, the rest is untouched. The new secondary, linked to
  the surviving primary, is appended exactly when the observation introduces a value
  absent from the merged clusters and no given value is too long for its column; when
  one is, identify fails after the merge has been written, and otherwise it returns a
  view of the surviving primary. The cluster of the surviving primary then holds the
  contacts of the merged clusters, each once, and the new secondary if there is one.
\<close>

theorem merge_touched:
  assumes inv: "store_inv db"
    and f: "findContactsByEmailOrPhone tie (email_r request) (phoneNumber_r request) db
              = Inr existing"
    and k: "2 \<le> length (owning_ids existing)"
  shows "\<exists>surv r db'.
           earliest db (owning_ids existing) surv
         \<and> identify tie request db = Some (r, db')
         \<and> take (length (rows db)) (rows db')
             = map (merge_row (clock db) (removeAll (id_c surv) (owning_ids existing))
                      (id_c surv)) (rows db)
         \<and> drop (length (rows db)) (rows db')
             = new_rows request (members (owning_ids existing) db) (id_c surv) db
         \<and> (if introduces_new request (members (owning_ids existing) db) \<and> rejected request
            then r = Inl DataError
            else \<exists>v. r = Inr v \<and> primaryContatctId v = id_c surv)
         \<and> mset (map id_c (members [id_c surv] db'))
             = (\<Sum>i\<leftarrow>owning_ids existing. mset (map id_c (members [i] db)))
               + mset (map id_c (drop (length (rows db)) (rows db')))"
proof -
  from k have ne: "existing \<noteq> []"
    by (auto simp: owning_ids_def List.map_filter_def)
  from f have sub: "set existing \<subseteq> set (rows db)" by (rule findContacts_subset)
  from touched_nonempty [OF inv sub ne] obtain surv others
    where t: "touched db existing = surv # others" by blast
  note c = touched_cons [OF inv sub t]
  note sp = touched_spec [OF inv sub t]
  let ?mem = "members (owning_ids existing) db"
  let ?extra = "new_rows request ?mem (id_c surv) db"
  let ?f = "merge_row (clock db) (map id_c others) (id_c surv)"
  let ?g = "merge_row (clock db) (removeAll (id_c surv) (owning_ids existing)) (id_c surv)"
  let ?db' = "db\<lparr>rows := map ?f (rows db) @ ?extra,
                 next_id := next_id db + int (length ?extra)\<rparr>"
  have fg: "?f = ?g" using sp(2) by (rule merge_row_cong)
  from merge_outcome [OF inv f ne t] obtain r
    where r: "identify tie request db = Some (r, ?db')"
      and c1: "if introduces_new request ?mem \<and> rejected request
            then r = Inl DataError
            else \<exists>v. r = Inr v \<and> primaryContatctId v = id_c surv
                   \<and> set (map id_c ?extra) \<subseteq> set (secondaryContactIds v)"
    by blast
  have tk: "take (length (rows db)) (rows ?db') = map ?g (rows db)"
    by (simp add: fg)
  have dr: "drop (length (rows db)) (rows ?db') = ?extra"
    by simp
  from c1 have c1': "if introduces_new request ?mem \<and> rejected request
            then r = Inl DataError
            else \<exists>v. r = Inr v \<and> primaryContatctId v = id_c surv"
    by (auto split: if_splits)
  have ex: "filter (\<lambda>c. owner c = Some (id_c surv)) ?extra = ?extra"
    by (simp add: new_rows_eq owner_def)
  have "members [id_c surv] ?db'
          = filter (\<lambda>c. owner c = Some (id_c surv)) (map ?f (rows db)) @ ?extra"
    by (simp add: members_one ex)
  also have "filter (\<lambda>c. owner c = Some (id_c surv)) (map ?f (rows db))
      = map ?f (members (map id_c (surv # others)) db)"
    using inv c(1,2,4,5) by (rule members_after_merge)
  also have "members (map id_c (surv # others)) db = ?mem"
    using sp(4) by (rule members_cong)
  finally have "map id_c (members [id_c surv] ?db') = map id_c ?mem @ map id_c ?extra"
    by simp
  then have "mset (map id_c (members [id_c surv] ?db'))
      = mset (map id_c ?mem) + mset (map id_c ?extra)"
    by simp
  also have "mset (map id_c ?mem) = (\<Sum>i\<leftarrow>owning_ids existing. mset (map id_c (members [i] db)))"
    using owning_ids_distinct by (rule sum_members [symmetric])
  finally have cl: "mset (map id_c (members [id_c surv] ?db'))
      = (\<Sum>i\<leftarrow>owning_ids existing. mset (map id_c (members [i] db)))
        + mset (map id_c (drop (length (rows db)) (rows ?db')))"
    by (simp only: dr)
  from sp(1) r tk dr c1' cl show ?thesis by blast
qed

theorem merge_touched_witness:
  "store_inv scenario_c_db
   \<and> findContactsByEmailOrPhone last_written (email_r scenario_c_request)
       (phoneNumber_r scenario_c_request) scenario_c_db = Inr (rows scenario_c_db)
   \<and> owning_ids (rows scenario_c_db) = [1, 5]
   \<and> identify last_written scenario_c_request scenario_c_db
       = Some (Inr scenario_c_view, scenario_c_after)
   \<and> mset (map id_c (members [1] scenario_c_after))
       = mset (map id_c (members [1] scenario_c_db)) + mset (map id_c (members [5] scenario_c_db))"
proof -
  have h1: "store_inv scenario_c_db" by code_simp
  have h2: "findContactsByEmailOrPhone last_written (email_r scenario_c_request)
      (phoneNumber_r scenario_c_request) scenario_c_db = Inr (rows scenario_c_db)"
    by code_simp
  have u: "owning_ids (rows scenario_c_db) = [1, 5]" by code_simp
  then have h3: "2 \<le> length (owning_ids (rows scenario_c_db))" by simp
  from merge_touched [OF h1 h2 h3] obtain surv :: contact and r db'
    where r: "identify last_written scenario_c_request scenario_c_db = Some (r, db')"
      and v: "if introduces_new scenario_c_request
                   (members (owning_ids (rows scenario_c_db)) scenario_c_db)
                 \<and> rejected scenario_c_request
              then r = Inl DataError
              else \<exists>v. r = Inr v \<and> primaryContatctId v = id_c surv"
      and cl: "mset (map id_c (members [id_c surv] db'))
                 = (\<Sum>i\<leftarrow>owning_ids (rows scenario_c_db).
                      mset (map id_c (members [i] scenario_c_db)))
                   + mset (map id_c (drop (length (rows scenario_c_db)) (rows db')))"
    by blast
  from r scenario_c_run have db': "db' = scenario_c_after" and rv: "r = Inr scenario_c_view"
    by simp_all
  from v rv have "primaryContatctId scenario_c_view = id_c surv"
    by (auto split: if_splits)
  then have i: "id_c surv = 1" by (simp add: scenario_c_view_def)
  have d: "drop (length (rows scenario_c_db)) (rows scenario_c_after) = []"
    by (simp add: scenario_c_db_def scenario_c_after_def)
  from cl have "mset (map id_c (members [1] scenario_c_after))
       = mset (map id_c (members [1] scenario_c_db)) + mset (map id_c (members [5] scenario_c_db))"
    by (simp add: db' i d u)
  with h1 h2 u scenario_c_run show ?thesis by blast
qed


end
